theory Spec2Isabelle
  imports Complex_Main "HOL-Library.Log_Nat" "HOL-Library.Multiset" "HOL-Library.Sublist"
    "HOL-Library.AList"
begin

section \<open>Data model\<close>

text \<open>
  A \<open>Node\<close> has a count, an optional target and the list of its children; nodes are
  compared by their counts alone. A frequency table (\<open>count_dict\<close>) is a Python
  dictionary: it is modelled by the list of its items in insertion order, an association
  list whose keys are distinct. The errors are the Python exceptions that the functions
  can raise.
\<close>

type_synonym target = string
type_synonym symbol = string

datatype node = Node (count: int) (target: "target option") (children: "node list")

datatype error =
  ValueError | ZeroDivisionError | OverflowError | IndexError | KeyError | RecursionError

definition node_lt :: "node \<Rightarrow> node \<Rightarrow> bool" where
  "node_lt self other = (count self < count other)"

section \<open>Integer true division and ceiling\<close>

text \<open>
  Python's \<open>a / b\<close> on integers is the double nearest to the exact quotient, ties
  going to the even significand; it raises \<open>ZeroDivisionError\<close> for \<open>b = 0\<close> and
  \<open>OverflowError\<close> when the rounded quotient reaches \<open>2 ^ 1024\<close>. The double is
  represented by the rational it denotes: a significand of at most 53 bits times a power
  of two whose exponent is at least \<open>- 1074\<close>. \<open>floor_log2 a b\<close> is the integer part of
  the binary logarithm of \<open>a / b\<close> for positive \<open>a\<close> and \<open>b\<close>.
\<close>

definition round_half_even :: "rat \<Rightarrow> int" where
  "round_half_even x =
     (let f = \<lfloor>x\<rfloor>; d = x - of_int f
      in if d < 1 / 2 then f
         else if 1 / 2 < d then f + 1
         else if even f then f else f + 1)"

definition floor_log2 :: "int \<Rightarrow> int \<Rightarrow> int" where
  "floor_log2 a b =
     (let e0 = bitlen a - bitlen b
      in if (of_int b :: rat) * power_int 2 e0 \<le> of_int a then e0 else e0 - 1)"

definition true_divide :: "int \<Rightarrow> int \<Rightarrow> error + rat" where
  "true_divide a b =
     (if b = 0 then Inl ZeroDivisionError
      else if a = 0 then Inr 0
      else
        let e = max (floor_log2 \<bar>a\<bar> \<bar>b\<bar> - 52) (- 1074);
            m = round_half_even (of_int \<bar>a\<bar> / (of_int \<bar>b\<bar> * power_int 2 e));
            r = of_int m * power_int 2 e
        in if power_int 2 1024 \<le> r then Inl OverflowError
           else Inr (of_int (sgn a * sgn b) * r))"

section \<open>Padding calculator\<close>

definition calculate_padding :: "int \<Rightarrow> int \<Rightarrow> error + (int \<times> int)" where
  "calculate_padding num_elements num_branches =
     (case true_divide (num_elements - 1) (num_branches - 1) of
        Inl e \<Rightarrow> Inl e
      | Inr q \<Rightarrow>
          let num_branch_points = \<lceil>q\<rceil>;
              num_padding = 1 + (num_branches - 1) * num_branch_points - num_elements
          in Inr (num_branch_points, num_padding))"

section \<open>The priority queue\<close>

text \<open>
  The functions of Python's \<open>heapq\<close> that \<open>merge_nodes\<close> calls, on a list of
  nodes: \<open>_siftdown\<close> and \<open>_siftup\<close> with their loops, \<open>heappush\<close>,
  \<open>heappop\<close> (which raises \<open>IndexError\<close> on the empty list) and \<open>heapify\<close>.
\<close>

function siftdown_loop :: "node list \<Rightarrow> nat \<Rightarrow> node \<Rightarrow> nat \<Rightarrow> node list \<times> nat" where
  "siftdown_loop heap startpos newitem pos =
     (if startpos < pos then
        (let parentpos = (pos - 1) div 2;
             parent = heap ! parentpos
         in if node_lt newitem parent
            then siftdown_loop (heap[pos := parent]) startpos newitem parentpos
            else (heap, pos))
      else (heap, pos))"
  by pat_completeness auto
termination
  by (relation "measure (\<lambda>(heap, startpos, newitem, pos). pos)") auto

declare siftdown_loop.simps [simp del]

definition siftdown :: "node list \<Rightarrow> nat \<Rightarrow> nat \<Rightarrow> node list" where
  "siftdown heap startpos pos =
     (let newitem = heap ! pos;
          (heap', pos') = siftdown_loop heap startpos newitem pos
      in heap'[pos' := newitem])"

function siftup_loop :: "node list \<Rightarrow> nat \<Rightarrow> nat \<Rightarrow> node list \<times> nat" where
  "siftup_loop heap endpos pos =
     (let childpos = 2 * pos + 1
      in if childpos < endpos then
           (let rightpos = childpos + 1;
                childpos' = (if rightpos < endpos
                                \<and> \<not> node_lt (heap ! childpos) (heap ! rightpos)
                             then rightpos else childpos)
            in siftup_loop (heap[pos := heap ! childpos']) endpos childpos')
         else (heap, pos))"
  by pat_completeness auto
termination
  by (relation "measure (\<lambda>(heap, endpos, pos). endpos - pos)") (auto simp: Let_def)

declare siftup_loop.simps [simp del]

definition siftup :: "node list \<Rightarrow> nat \<Rightarrow> node list" where
  "siftup heap pos =
     (let endpos = length heap;
          startpos = pos;
          newitem = heap ! pos;
          (heap', pos') = siftup_loop heap endpos pos
      in siftdown (heap'[pos' := newitem]) startpos pos')"

definition heappush :: "node list \<Rightarrow> node \<Rightarrow> node list" where
  "heappush heap item = siftdown (heap @ [item]) 0 (length heap)"

definition heappop :: "node list \<Rightarrow> error + (node \<times> node list)" where
  "heappop heap =
     (if heap = [] then Inl IndexError
      else
        let lastelt = last heap;
            heap' = butlast heap
        in if heap' \<noteq> [] then Inr (heap' ! 0, siftup (heap'[0 := lastelt]) 0)
           else Inr (lastelt, heap'))"

definition heapify :: "node list \<Rightarrow> node list" where
  "heapify x = fold (\<lambda>i heap. siftup heap i) (rev [0 ..< length x div 2]) x"

section \<open>Tree builder\<close>

text \<open>
  \<open>pop_loop\<close> is the inner \<open>for\<close> loop of \<open>merge_nodes\<close>, \<open>merge_step\<close> one
  iteration of its \<open>while\<close> loop and \<open>merge_loop\<close> the \<open>while\<close> loop itself. The
  loop need not end (with \<open>num_branches \<le> 1\<close> the list never shrinks), so it is a
  partial function: \<open>None\<close> stands for a loop that never returns.
\<close>

fun pop_loop :: "nat \<Rightarrow> node list \<Rightarrow> int \<Rightarrow> node list
    \<Rightarrow> error + (node list \<times> int \<times> node list)" where
  "pop_loop 0 nodes merged_count merged_children =
     Inr (nodes, merged_count, merged_children)"
| "pop_loop (Suc k) nodes merged_count merged_children =
     (case heappop nodes of
        Inl e \<Rightarrow> Inl e
      | Inr (node, nodes') \<Rightarrow>
          pop_loop k nodes' (merged_count + count node) (merged_children @ [node]))"

definition merge_step :: "node list \<Rightarrow> int \<Rightarrow> error + node list" where
  "merge_step nodes num_branches =
     (case pop_loop (nat (min num_branches (int (length nodes)))) nodes 0 [] of
        Inl e \<Rightarrow> Inl e
      | Inr (nodes', merged_count, merged_children) \<Rightarrow>
          Inr (heappush nodes' (Node merged_count None merged_children)))"

partial_function (option) merge_loop :: "node list \<Rightarrow> int \<Rightarrow> (error + node list) option" where
  "merge_loop nodes num_branches =
     (if 1 < length nodes then
        (case merge_step nodes num_branches of
           Inl e \<Rightarrow> Some (Inl e)
         | Inr nodes' \<Rightarrow> merge_loop nodes' num_branches)
      else Some (Inr nodes))"

declare merge_loop.simps [code]

definition merge_nodes :: "node list \<Rightarrow> int \<Rightarrow> (error + node option) option" where
  "merge_nodes nodes num_branches =
     (case merge_loop (heapify nodes) num_branches of
        None \<Rightarrow> None
      | Some (Inl e) \<Rightarrow> Some (Inl e)
      | Some (Inr nodes') \<Rightarrow> Some (Inr (if nodes' \<noteq> [] then Some (nodes' ! 0) else None)))"

definition build_huffman_tree ::
    "(target \<times> int) list \<Rightarrow> symbol list \<Rightarrow> (error + node option) option" where
  "build_huffman_tree count_dict symbols =
     (if length symbols \<noteq> card (set symbols) then Some (Inl ValueError)
      else
        let num_elements = int (length count_dict);
            num_branches = int (length symbols)
        in case calculate_padding num_elements num_branches of
             Inl e \<Rightarrow> Some (Inl e)
           | Inr (num_branch_points, num_padding) \<Rightarrow>
               merge_nodes
                 (map (\<lambda>(target, count). Node count (Some target) []) count_dict
                    @ replicate (nat num_padding) (Node 0 None []))
                 num_branches)"

section \<open>Encoding map generator\<close>

text \<open>
  The encoding map is a Python dictionary under construction: an association list in
  insertion order, where storing under a key already present replaces its value in place.
  \<open>traverse_children\<close> is the loop over \<open>enumerate(node.children)\<close>; the lookup
  \<open>symbols[i]\<close> raises \<open>IndexError\<close> out of range and \<open>count_dict[node.target]\<close>
  raises \<open>KeyError\<close> for a missing target.

  \<open>traverse\<close> calls itself once for every level of the tree, and the interpreter
  raises \<open>RecursionError\<close> when its recursion limit is reached. \<open>max_depth\<close> is the
  number of nested calls of \<open>traverse\<close> that the limit still allows below the call
  on the root (with CPython's default limit of 1000 it is a little less than 1000); each
  recursive call has one less. The argument \<open>path + [symbols[i]]\<close> is evaluated before
  the call, so an index out of range is reported first.
\<close>

type_synonym encoding_map = "(symbol list \<times> (target \<times> int)) list"

fun traverse :: "nat \<Rightarrow> symbol list \<Rightarrow> (target \<times> int) list \<Rightarrow> node \<Rightarrow> symbol list
      \<Rightarrow> encoding_map \<Rightarrow> error + encoding_map"
  and traverse_children :: "nat \<Rightarrow> symbol list \<Rightarrow> (target \<times> int) list \<Rightarrow> nat \<Rightarrow> node list
      \<Rightarrow> symbol list \<Rightarrow> encoding_map \<Rightarrow> error + encoding_map" where
  "traverse max_depth symbols count_dict (Node c t cs) path encoding_map =
     (case (case t of
              None \<Rightarrow> Inr encoding_map
            | Some tg \<Rightarrow>
                (case map_of count_dict tg of
                   None \<Rightarrow> Inl KeyError
                 | Some cnt \<Rightarrow> Inr (AList.update path (tg, cnt) encoding_map))) of
        Inl e \<Rightarrow> Inl e
      | Inr encoding_map' \<Rightarrow>
          traverse_children max_depth symbols count_dict 0 cs path encoding_map')"
| "traverse_children max_depth symbols count_dict i [] path encoding_map = Inr encoding_map"
| "traverse_children max_depth symbols count_dict i (child # rest) path encoding_map =
     (if i < length symbols then
        (if max_depth = 0 then Inl RecursionError
         else
           (case traverse (max_depth - 1) symbols count_dict child (path @ [symbols ! i])
                   encoding_map of
              Inl e \<Rightarrow> Inl e
            | Inr encoding_map' \<Rightarrow>
                traverse_children max_depth symbols count_dict (i + 1) rest path encoding_map'))
      else Inl IndexError)"

definition generate_encoding_map_with_count ::
    "nat \<Rightarrow> node \<Rightarrow> symbol list \<Rightarrow> (target \<times> int) list \<Rightarrow> error + encoding_map" where
  "generate_encoding_map_with_count max_depth root_node symbols count_dict =
     traverse max_depth symbols count_dict root_node [] []"

section \<open>Notions used to state the properties\<close>

text \<open>All nodes of a tree, the root first.\<close>

fun nodes_of :: "node \<Rightarrow> node list" where
  "nodes_of (Node c t cs) = Node c t cs # concat (map nodes_of cs)"

text \<open>The number of levels of a tree below its root.\<close>

fun depth_of :: "node \<Rightarrow> nat" where
  "depth_of (Node c t cs) = fold max (map (\<lambda>child. Suc (depth_of child)) cs) 0"

text \<open>The targets carried by the nodes of a tree, in the order of the traversal.\<close>

fun targets_of :: "node \<Rightarrow> target list" where
  "targets_of (Node c t cs) =
     (case t of None \<Rightarrow> [] | Some tg \<Rightarrow> [tg]) @ concat (map targets_of cs)"

text \<open>
  The code word of every node that carries a target: the symbols on the path from the
  root, the child at position \<open>i\<close> being reached by \<open>symbols ! i\<close>.
\<close>

fun code_words :: "symbol list \<Rightarrow> node \<Rightarrow> (symbol list \<times> target) list"
  and code_words_children :: "symbol list \<Rightarrow> nat \<Rightarrow> node list \<Rightarrow> (symbol list \<times> target) list"
  where
  "code_words symbols (Node c t cs) =
     (case t of None \<Rightarrow> [] | Some tg \<Rightarrow> [([], tg)]) @ code_words_children symbols 0 cs"
| "code_words_children symbols i [] = []"
| "code_words_children symbols i (child # rest) =
     map (\<lambda>(w, tg). (symbols ! i # w, tg)) (code_words symbols child)
       @ code_words_children symbols (i + 1) rest"

definition prefix_free :: "'a list list \<Rightarrow> bool" where
  "prefix_free ws = (\<forall>v \<in> set ws. \<forall>w \<in> set ws. v \<noteq> w \<longrightarrow> \<not> prefix v w)"

text \<open>The leaves that \<open>build_huffman_tree\<close> hands to \<open>merge_nodes\<close>.\<close>

definition initial_nodes :: "(target \<times> int) list \<Rightarrow> int \<Rightarrow> node list" where
  "initial_nodes count_dict num_padding =
     map (\<lambda>(target, count). Node count (Some target) []) count_dict
       @ replicate (nat num_padding) (Node 0 None [])"

text \<open>A frequency table of \<open>2 ^ 53 + 2\<close> distinct targets.\<close>

definition big_table :: "(target \<times> int) list" where
  "big_table = map (\<lambda>i. (replicate i (CHR ''t''), 1)) [0 ..< 2 ^ 53 + 2]"

text \<open>The number of children of the root of a built tree.\<close>

definition root_arity :: "(error + node option) option \<Rightarrow> nat option" where
  "root_arity res =
     (case res of Some (Inr (Some r)) \<Rightarrow> Some (length (children r)) | _ \<Rightarrow> None)"

text \<open>The entry that the traversal records for one code word.\<close>

definition record_code ::
    "(target \<times> int) list \<Rightarrow> symbol list \<Rightarrow> symbol list \<times> target \<Rightarrow> encoding_map \<Rightarrow> encoding_map"
  where
  "record_code count_dict path = (\<lambda>(w, tg). AList.update (path @ w) (tg, the (map_of count_dict tg)))"

text \<open>Distinct words none of which is a prefix of another.\<close>

definition incomparable :: "'a list list \<Rightarrow> bool" where
  "incomparable ws = (distinct ws \<and> (\<forall>v \<in> set ws. \<forall>w \<in> set ws. prefix v w \<longrightarrow> v = w))"

section \<open>Rounding and the logarithm\<close>

lemma round_half_even_le: "x \<le> of_int n \<Longrightarrow> round_half_even x \<le> n"
  unfolding round_half_even_def Let_def
  by (auto simp: floor_le_iff not_less)

lemma round_half_even_ge: "of_int n \<le> x \<Longrightarrow> n \<le> round_half_even x"
proof -
  assume "of_int n \<le> x"
  then have "n \<le> \<lfloor>x\<rfloor>" by (simp add: le_floor_iff)
  then show ?thesis unfolding round_half_even_def Let_def by auto
qed

lemma round_half_even_gt: "of_int n + 1 / 2 < x \<Longrightarrow> n < round_half_even x"
proof -
  assume h: "of_int n + 1 / 2 < x"
  then have "n \<le> \<lfloor>x\<rfloor>" by (simp add: le_floor_iff)
  moreover have "\<lfloor>x\<rfloor> = n \<Longrightarrow> 1 / 2 < x - of_int \<lfloor>x\<rfloor>" using h by simp
  ultimately show ?thesis unfolding round_half_even_def Let_def
    by (cases "\<lfloor>x\<rfloor> = n") auto
qed

lemma floor_log2_bounds:
  assumes "0 < a" "0 < b"
  shows "(of_int b :: rat) * 2 powi (floor_log2 a b) \<le> of_int a"
    and "(of_int a :: rat) < of_int b * 2 powi (floor_log2 a b + 1)"
proof -
  let ?e0 = "bitlen a - bitlen b"
  have ba: "1 \<le> bitlen a" and bb: "1 \<le> bitlen b"
    using assms bitlen_eq_zero_iff[of a] bitlen_eq_zero_iff[of b] bitlen_nonneg[of a] bitlen_nonneg[of b]
    by linarith+
  have a_lo: "(2::rat) powi (bitlen a - 1) \<le> of_int a"
  proof -
    have "(2::int) ^ nat (bitlen a - 1) \<le> a" using bitlen_bounds[OF assms(1)] by simp
    then have "(of_int ((2::int) ^ nat (bitlen a - 1)) :: rat) \<le> of_int a"
      by (simp only: of_int_le_iff)
    then show ?thesis using ba by (simp add: power_int_nonneg_exp)
  qed
  have a_hi: "(of_int a :: rat) < 2 powi (bitlen a)"
  proof -
    have "a < (2::int) ^ nat (bitlen a)" using bitlen_bounds[OF assms(1)] by simp
    then have "(of_int a :: rat) < of_int ((2::int) ^ nat (bitlen a))"
      by (simp only: of_int_less_iff)
    then show ?thesis using ba by (simp add: power_int_nonneg_exp)
  qed
  have b_lo: "(2::rat) powi (bitlen b - 1) \<le> of_int b"
  proof -
    have "(2::int) ^ nat (bitlen b - 1) \<le> b" using bitlen_bounds[OF assms(2)] by simp
    then have "(of_int ((2::int) ^ nat (bitlen b - 1)) :: rat) \<le> of_int b"
      by (simp only: of_int_le_iff)
    then show ?thesis using bb by (simp add: power_int_nonneg_exp)
  qed
  have b_hi: "(of_int b :: rat) < 2 powi (bitlen b)"
  proof -
    have "b < (2::int) ^ nat (bitlen b)" using bitlen_bounds[OF assms(2)] by simp
    then have "(of_int b :: rat) < of_int ((2::int) ^ nat (bitlen b))"
      by (simp only: of_int_less_iff)
    then show ?thesis using bb by (simp add: power_int_nonneg_exp)
  qed
  have pos: "\<And>k. (0::rat) < 2 powi k" by simp
  have up: "(of_int a :: rat) < of_int b * 2 powi (?e0 + 1)"
  proof -
    have "(2::rat) powi (bitlen b - 1) * 2 powi (?e0 + 1) = 2 powi (bitlen a)"
      by (simp add: power_int_add[symmetric])
    moreover have "(2::rat) powi (bitlen b - 1) * 2 powi (?e0 + 1) \<le> of_int b * 2 powi (?e0 + 1)"
      using b_lo pos[of "?e0 + 1"] by (simp only: mult_le_cancel_right_pos)
    ultimately show ?thesis using a_hi by linarith
  qed
  have down: "(of_int b :: rat) * 2 powi (?e0 - 1) \<le> of_int a"
  proof -
    have "(2::rat) powi (bitlen b) * 2 powi (?e0 - 1) = 2 powi (bitlen a - 1)"
      by (simp add: power_int_add[symmetric])
    moreover have "(of_int b :: rat) * 2 powi (?e0 - 1) < 2 powi (bitlen b) * 2 powi (?e0 - 1)"
      using b_hi pos[of "?e0 - 1"] by (simp only: mult_less_cancel_right_pos)
    ultimately show ?thesis using a_lo by linarith
  qed
  show "(of_int b :: rat) * 2 powi (floor_log2 a b) \<le> of_int a"
    using down by (simp add: floor_log2_def Let_def)
  show "(of_int a :: rat) < of_int b * 2 powi (floor_log2 a b + 1)"
    using up by (auto simp add: floor_log2_def Let_def not_le)
qed

lemma true_divide_pos_ceiling:
  assumes a: "0 < a" "a \<le> 2 ^ 53" and b: "0 < b" "b \<le> 2 ^ 53"
  shows "\<exists>r. true_divide a b = Inr r \<and> \<lceil>r\<rceil> = \<lceil>(of_int a / of_int b :: rat)\<rceil>"
proof (cases "a = 2 ^ 53 \<and> b = 1")
  case True
  have "true_divide (2 ^ 53) 1 = Inr (2 ^ 53)" by code_simp
  then show ?thesis using True by simp
next
  case False
  define fl where "fl = floor_log2 a b"
  define x :: rat where "x = of_int a / of_int b"
  define c where "c = \<lceil>x\<rceil>"
  have bpos: "(0::rat) < of_int b" using b by simp
  have lo: "(of_int b :: rat) * 2 powi fl \<le> of_int a"
    and hi: "(of_int a :: rat) < of_int b * 2 powi (fl + 1)"
    unfolding fl_def using floor_log2_bounds[OF a(1) b(1)] by blast+
  have fl_hi: "fl \<le> 52"
  proof (rule ccontr)
    assume "\<not> fl \<le> 52"
    then have "53 \<le> fl" by simp
    then have "(2::rat) powi 53 \<le> 2 powi fl" by (intro power_int_increasing) simp_all
    then have "(2::rat) ^ 53 \<le> 2 powi fl" by simp
    then have "(of_int b :: rat) * 2 ^ 53 \<le> of_int b * 2 powi fl"
      using bpos by (simp only: mult_le_cancel_left_pos)
    then have "(of_int b :: rat) * 2 ^ 53 \<le> of_int a" using lo by linarith
    then have "(of_int (b * 2 ^ 53) :: rat) \<le> of_int a" by simp
    then have "b * 2 ^ 53 \<le> a" by (simp only: of_int_le_iff)
    then show False using a b False by auto
  qed
  have fl_lo: "- 53 \<le> fl"
  proof (rule ccontr)
    assume "\<not> - 53 \<le> fl"
    then have "fl + 1 \<le> - 53" by simp
    then have "(2::rat) powi (fl + 1) \<le> 2 powi (- 53)" by (intro power_int_increasing) simp_all
    then have "(of_int b :: rat) * 2 powi (fl + 1) \<le> of_int b * 2 powi (- 53)"
      using bpos by (simp only: mult_le_cancel_left_pos)
    moreover have "(of_int b :: rat) * 2 powi (- 53) \<le> 2 ^ 53 * 2 powi (- 53)"
    proof -
      have "(of_int b :: rat) \<le> of_int (2 ^ 53)" using b(2) by (simp only: of_int_le_iff)
      then show ?thesis by (simp add: power_int_minus)
    qed
    moreover have "(2::rat) ^ 53 * 2 powi (- 53) = 1" by (simp add: power_int_minus)
    ultimately have "(of_int a :: rat) < 1" using hi by linarith
    then have "a < 1" by simp
    then show False using a by simp
  qed
  define j where "j = nat (52 - fl)"
  have e_eq: "max (fl - 52) (- 1074) = - int j" using fl_hi fl_lo by (simp add: j_def)
  have pw: "(2::rat) powi (- int j) = 1 / 2 ^ j" by (simp add: power_int_minus_divide)
  define y :: rat where "y = x * 2 ^ j"
  have y_eq: "of_int \<bar>a\<bar> / (of_int \<bar>b\<bar> * 2 powi max (floor_log2 \<bar>a\<bar> \<bar>b\<bar> - 52) (- 1074)) = y"
    using a b e_eq pw by (simp add: fl_def[symmetric] y_def x_def)
  define m where "m = round_half_even y"
  have x_le: "x \<le> of_int c" unfolding c_def by simp
  have x_gt: "of_int c - 1 < x" unfolding c_def by linarith
  have xpos: "0 < x" unfolding x_def using a b by simp
  have cpos: "1 \<le> c"
  proof -
    have "(0::rat) < of_int c" using x_le xpos by linarith
    then show ?thesis by simp
  qed
  have p2: "(0::rat) < 2 ^ j" by simp
  have y_ge: "2 ^ 52 \<le> y"
  proof -
    have "(2::rat) powi fl \<le> x" unfolding x_def using lo bpos
      by (simp add: pos_le_divide_eq mult.commute)
    then have "(2::rat) powi fl * 2 ^ j \<le> y" unfolding y_def using p2
      by (simp only: mult_le_cancel_right_pos)
    moreover have "(2::rat) powi fl * 2 ^ j = 2 powi (fl + int j)"
      by (simp add: power_int_add)
    moreover have "fl + int j = 52" using fl_hi by (simp add: j_def)
    ultimately show ?thesis by simp
  qed
  have m_le: "m \<le> c * 2 ^ j"
  proof -
    have "y \<le> of_int c * 2 ^ j" unfolding y_def using x_le p2
      by (simp only: mult_le_cancel_right_pos)
    then have "y \<le> of_int (c * 2 ^ j)" by simp
    then show ?thesis unfolding m_def by (rule round_half_even_le)
  qed
  have m_gt: "(c - 1) * 2 ^ j < m"
  proof (cases "(c - 1) * 2 ^ j < 2 ^ 52")
    case True
    have "of_int (2 ^ 52) \<le> y" using y_ge by simp
    then have "2 ^ 52 \<le> m" unfolding m_def by (rule round_half_even_ge)
    then show ?thesis using True by linarith
  next
    case False
    then have big: "(2::int) ^ 52 \<le> (c - 1) * 2 ^ j" by simp
    have ab: "(c - 1) * b < a"
    proof -
      have "(of_int c - 1) * of_int b < (of_int a :: rat)"
        using x_gt bpos unfolding x_def by (simp add: pos_less_divide_eq)
      then have "(of_int ((c - 1) * b) :: rat) < of_int a" by simp
      then show ?thesis by (simp only: of_int_less_iff)
    qed
    have "b * 2 ^ 52 \<le> b * ((c - 1) * 2 ^ j)"
      using big b(1) by (simp only: mult_le_cancel_left_pos)
    also have "\<dots> = ((c - 1) * b) * 2 ^ j" by (simp add: mult_ac)
    also have "\<dots> < a * 2 ^ j" using ab by (simp only: mult_less_cancel_right_pos zero_less_power zero_less_numeral)
    also have "\<dots> \<le> 2 ^ 53 * 2 ^ j" using a(2) by simp
    finally have "b * 2 ^ 52 < 2 ^ 52 * (2 * 2 ^ j)" by simp
    then have bj: "b < 2 * 2 ^ j" by simp
    have d1: "1 \<le> a - (c - 1) * b" using ab by simp
    have "y - of_int ((c - 1) * 2 ^ j) = of_int (a - (c - 1) * b) * 2 ^ j / of_int b"
      unfolding y_def x_def using bpos by (simp add: field_simps)
    moreover have "(2::rat) ^ j / of_int b \<le> of_int (a - (c - 1) * b) * 2 ^ j / of_int b"
    proof -
      have "(1::rat) \<le> of_int (a - (c - 1) * b)" using d1 by (simp only: of_int_1_le_iff)
      then have "(1::rat) * 2 ^ j \<le> of_int (a - (c - 1) * b) * 2 ^ j"
        using p2 by (simp only: mult_le_cancel_right_pos)
      then show ?thesis using bpos by (simp add: divide_le_cancel)
    qed
    moreover have "(1::rat) / 2 < 2 ^ j / of_int b"
    proof -
      have "(of_int b :: rat) < of_int (2 * 2 ^ j)" using bj by (simp only: of_int_less_iff)
      then have "(of_int b :: rat) < 2 * 2 ^ j" by simp
      then show ?thesis using bpos by (simp add: pos_less_divide_eq)
    qed
    ultimately have "of_int ((c - 1) * 2 ^ j) + 1 / 2 < y" by linarith
    then show ?thesis unfolding m_def by (rule round_half_even_gt)
  qed
  define r :: rat where "r = of_int m * 2 powi (- int j)"
  have r_eq: "r = of_int m / 2 ^ j" by (simp add: r_def pw)
  have r_le: "r \<le> of_int c"
  proof -
    have "(of_int m :: rat) \<le> of_int (c * 2 ^ j)" using m_le by (simp only: of_int_le_iff)
    then show ?thesis unfolding r_eq using p2 by (simp add: pos_divide_le_eq)
  qed
  have r_gt: "of_int c - 1 < r"
  proof -
    have "(of_int ((c - 1) * 2 ^ j) :: rat) < of_int m" using m_gt by (simp only: of_int_less_iff)
    then show ?thesis unfolding r_eq using p2 by (simp add: pos_less_divide_eq)
  qed
  have c_le: "c \<le> 2 ^ 53"
  proof -
    have "x \<le> of_int a" unfolding x_def using a b bpos
      by (simp add: pos_divide_le_eq mult_le_cancel_left1)
    then have "c \<le> a" unfolding c_def by (simp add: ceiling_le_iff)
    then show ?thesis using a(2) by linarith
  qed
  have no_ovf: "\<not> (2::rat) powi 1024 \<le> r"
  proof -
    have "(of_int c :: rat) \<le> of_int (2 ^ 53)" using c_le by (simp only: of_int_le_iff)
    then have "r \<le> 2 ^ 53" using r_le by simp
    moreover have "(2::rat) ^ 53 < 2 ^ 1024" by simp
    ultimately show ?thesis by simp
  qed
  have "true_divide a b = Inr r"
    using a(1) b(1) no_ovf
    unfolding true_divide_def Let_def y_eq m_def[symmetric] r_def
    by (simp add: fl_def[symmetric] e_eq)
  moreover have "\<lceil>r\<rceil> = c" using r_le r_gt by (simp add: ceiling_unique)
  ultimately show ?thesis unfolding c_def x_def by blast
qed

lemma true_divide_minus_one:
  assumes b: "2 \<le> b"
  shows "\<exists>r. true_divide (- 1) b = Inr r \<and> \<lceil>r\<rceil> = 0"
proof -
  define fl where "fl = floor_log2 1 b"
  have bpos: "(0::rat) < of_int b" and b2: "(2::rat) \<le> of_int b" using b by simp_all
  have lo: "(of_int b :: rat) * 2 powi fl \<le> 1"
    unfolding fl_def using floor_log2_bounds(1)[of 1 b] b by simp
  have fl_neg: "fl \<le> - 1"
  proof (rule ccontr)
    assume "\<not> fl \<le> - 1"
    then have "0 \<le> fl" by simp
    then have "(2::rat) powi 0 \<le> 2 powi fl" by (intro power_int_increasing) simp_all
    then have "(1::rat) \<le> 2 powi fl" by simp
    then have "(of_int b :: rat) * 1 \<le> of_int b * 2 powi fl"
      using bpos by (simp only: mult_le_cancel_left_pos)
    then show False using lo b2 by linarith
  qed
  define e where "e = max (fl - 52) (- 1074)"
  define j where "j = nat (- e)"
  have e_eq: "e = - int j" and j_pos: "1 \<le> j" using fl_neg by (simp_all add: e_def j_def)
  have pw: "(2::rat) powi e = 1 / 2 ^ j" by (simp add: e_eq power_int_minus_divide)
  define y :: rat where "y = 2 ^ j / of_int b"
  define m where "m = round_half_even y"
  have y_eq: "of_int \<bar>- 1\<bar> / (of_int \<bar>b\<bar> * 2 powi max (floor_log2 \<bar>- 1\<bar> \<bar>b\<bar> - 52) (- 1074)) = y"
    using b by (simp add: fl_def[symmetric] e_def[symmetric] pw y_def)
  have p2: "(0::rat) < 2 ^ j" by simp
  have jsplit: "(2::rat) ^ j = 2 * 2 ^ (j - 1)" using j_pos by (cases j) simp_all
  have "y \<le> 2 ^ (j - 1)"
    unfolding y_def using bpos b2 jsplit
    by (simp add: pos_divide_le_eq mult.commute)
  then have "y \<le> of_int (2 ^ (j - 1))" by simp
  then have m_le: "m \<le> 2 ^ (j - 1)" unfolding m_def by (rule round_half_even_le)
  have "of_int 0 \<le> y" unfolding y_def using bpos by simp
  then have m_ge: "0 \<le> m" unfolding m_def by (rule round_half_even_ge)
  define r :: rat where "r = of_int m * 2 powi e"
  have r_eq: "r = of_int m / 2 ^ j" by (simp add: r_def pw)
  have r_ge: "0 \<le> r" unfolding r_eq using m_ge by simp
  have r_le: "r \<le> 1 / 2"
  proof -
    have "(of_int m :: rat) \<le> of_int (2 ^ (j - 1))" using m_le by (simp only: of_int_le_iff)
    then have "(of_int m :: rat) * 2 \<le> 2 ^ j" using jsplit by simp
    then show ?thesis unfolding r_eq using p2 by (simp add: pos_divide_le_eq)
  qed
  have no_ovf: "\<not> (2::rat) powi 1024 \<le> r"
  proof -
    have "(1::rat) < 2 ^ 1024" by simp
    then show ?thesis using r_le by simp
  qed
  have sg: "sgn (- 1 :: int) * sgn b = - 1" using b by simp
  have "true_divide (- 1) b = Inr (- r)"
    using b no_ovf
    unfolding true_divide_def Let_def y_eq m_def[symmetric] sg
    by (simp add: fl_def[symmetric] e_def[symmetric] r_def)
  moreover have "\<lceil>- r\<rceil> = 0" using r_ge r_le by (simp add: ceiling_unique)
  ultimately show ?thesis by blast
qed

lemma true_divide_zero: "b \<noteq> 0 \<Longrightarrow> true_divide 0 b = Inr 0"
  by (simp add: true_divide_def)

lemma true_divide_by_zero: "true_divide a 0 = Inl ZeroDivisionError"
  by (simp add: true_divide_def)

lemma true_divide_minus_one_one: "true_divide (- 1) 1 = Inr (- 1)"
  by code_simp

lemma calculate_padding_exact:
  assumes "0 \<le> num_elements" "num_elements \<le> 2 ^ 53 + 1"
    and "2 \<le> num_branches" "num_branches \<le> 2 ^ 53 + 1"
  shows "calculate_padding num_elements num_branches =
     Inr (\<lceil>(of_int (num_elements - 1) / of_int (num_branches - 1) :: rat)\<rceil>,
          1 + (num_branches - 1)
              * \<lceil>(of_int (num_elements - 1) / of_int (num_branches - 1) :: rat)\<rceil>
            - num_elements)"
proof -
  let ?a = "num_elements - 1" and ?b = "num_branches - 1"
  have "\<exists>r. true_divide ?a ?b = Inr r \<and> \<lceil>r\<rceil> = \<lceil>(of_int ?a / of_int ?b :: rat)\<rceil>"
  proof -
    consider "num_elements = 0" "num_branches = 2" | "num_elements = 0" "3 \<le> num_branches"
      | "num_elements = 1" | "2 \<le> num_elements"
      using assms by linarith
    then show ?thesis
    proof cases
      case 1
      then show ?thesis using true_divide_minus_one_one by simp
    next
      case 2
      then have nb: "2 \<le> ?b" by simp
      obtain r where r: "true_divide (- 1) ?b = Inr r" "\<lceil>r\<rceil> = 0"
        using true_divide_minus_one[OF nb] by blast
      have "- 1 < (- 1 / of_int ?b :: rat)" "(- 1 / of_int ?b :: rat) \<le> 0"
        using nb by (simp_all add: field_simps)
      then have "\<lceil>(- 1 / of_int ?b :: rat)\<rceil> = 0" by (simp add: ceiling_unique)
      then show ?thesis using r 2 by simp
    next
      case 3
      then show ?thesis using assms by (simp add: true_divide_zero)
    next
      case 4
      then show ?thesis using assms by (intro true_divide_pos_ceiling) simp_all
    qed
  qed
  then show ?thesis by (auto simp: calculate_padding_def Let_def)
qed


section \<open>The priority queue keeps its elements\<close>

lemma mset_update_shift:
  assumes "i < length xs" "j < length xs"
  shows "mset (xs[i := xs ! j, j := v]) = mset (xs[i := v])"
proof (cases "i = j")
  case True
  then show ?thesis by simp
next
  case False
  then show ?thesis using assms by (simp add: mset_update)
qed

lemma siftdown_loop_props:
  assumes "pos < length heap" "siftdown_loop heap startpos newitem pos = (heap', pos')"
  shows "length heap' = length heap \<and> pos' < length heap
         \<and> mset (heap'[pos' := newitem]) = mset (heap[pos := newitem])"
  using assms
proof (induction heap startpos newitem pos rule: siftdown_loop.induct)
  case (1 heap startpos newitem pos)
  let ?pp = "(pos - 1) div 2"
  show ?case
  proof (cases "startpos < pos \<and> node_lt newitem (heap ! ?pp)")
    case True
    then have pp: "?pp < length heap" using "1.prems"(1) by simp
    have rec: "siftdown_loop (heap[pos := heap ! ?pp]) startpos newitem ?pp = (heap', pos')"
      using "1.prems"(2) True by (subst (asm) siftdown_loop.simps) (simp add: Let_def)
    have ih: "length heap' = length (heap[pos := heap ! ?pp]) \<and> pos' < length (heap[pos := heap ! ?pp])
        \<and> mset (heap'[pos' := newitem]) = mset (heap[pos := heap ! ?pp, ?pp := newitem])"
      using "1.IH"[OF _ refl refl _ _ rec] True pp by simp
    then show ?thesis using mset_update_shift[OF "1.prems"(1) pp] by simp
  next
    case False
    have "siftdown_loop heap startpos newitem pos = (heap, pos)"
      using False by (subst siftdown_loop.simps) (auto simp: Let_def)
    then have "heap' = heap" "pos' = pos" using "1.prems"(2) by simp_all
    then show ?thesis using "1.prems"(1) by simp
  qed
qed

lemma mset_siftdown:
  assumes "pos < length heap"
  shows "mset (siftdown heap startpos pos) = mset heap"
proof -
  obtain heap' pos' where r: "siftdown_loop heap startpos (heap ! pos) pos = (heap', pos')"
    by (cases "siftdown_loop heap startpos (heap ! pos) pos")
  from siftdown_loop_props[OF assms r]
  have "mset (heap'[pos' := heap ! pos]) = mset (heap[pos := heap ! pos])" by simp
  then show ?thesis using r by (simp add: siftdown_def)
qed

lemma siftup_loop_props:
  assumes "pos < length heap" "siftup_loop heap (length heap) pos = (heap', pos')"
  shows "length heap' = length heap \<and> pos' < length heap
         \<and> mset (heap'[pos' := v]) = mset (heap[pos := v])"
  using assms
proof (induction heap "length heap" pos arbitrary: rule: siftup_loop.induct)
  case (1 heap pos)
  let ?cp = "2 * pos + 1"
  let ?cp' = "if ?cp + 1 < length heap \<and> \<not> node_lt (heap ! ?cp) (heap ! (?cp + 1))
              then ?cp + 1 else ?cp"
  show ?case
  proof (cases "?cp < length heap")
    case True
    then have cp': "?cp' < length heap" by simp
    have rec: "siftup_loop (heap[pos := heap ! ?cp']) (length heap) ?cp' = (heap', pos')"
      using "1.prems"(2) True
      by (subst (asm) siftup_loop.simps) (simp add: Let_def split del: if_split cong: if_cong)
    have ih: "length heap' = length (heap[pos := heap ! ?cp']) \<and> pos' < length (heap[pos := heap ! ?cp'])
        \<and> mset (heap'[pos' := v]) = mset (heap[pos := heap ! ?cp', ?cp' := v])"
      using "1.hyps"[OF refl True refl refl] cp' rec by simp
    then show ?thesis using mset_update_shift[OF "1.prems"(1) cp'] by simp
  next
    case False
    have "siftup_loop heap (length heap) pos = (heap, pos)"
      using False by (subst siftup_loop.simps) (simp add: Let_def)
    then have "heap' = heap" "pos' = pos" using "1.prems"(2) by simp_all
    then show ?thesis using "1.prems"(1) by simp
  qed
qed

lemma mset_siftup:
  assumes "pos < length heap"
  shows "mset (siftup heap pos) = mset heap"
proof -
  obtain heap' pos' where r: "siftup_loop heap (length heap) pos = (heap', pos')"
    by (cases "siftup_loop heap (length heap) pos")
  from siftup_loop_props[OF assms r, of "heap ! pos"]
  have p: "length heap' = length heap" "pos' < length heap"
    "mset (heap'[pos' := heap ! pos]) = mset heap" by simp_all
  have "mset (siftdown (heap'[pos' := heap ! pos]) pos pos') = mset (heap'[pos' := heap ! pos])"
    using p by (intro mset_siftdown) simp
  then show ?thesis using r p by (simp add: siftup_def)
qed

lemma mset_heappush: "mset (heappush heap item) = add_mset item (mset heap)"
  unfolding heappush_def by (subst mset_siftdown) simp_all

lemma heappop_mset:
  assumes "heap \<noteq> []"
  shows "\<exists>x heap'. heappop heap = Inr (x, heap') \<and> mset heap = add_mset x (mset heap')"
proof (cases "butlast heap = []")
  case True
  then have "heap = [last heap]" using assms by (metis append_butlast_last_id append_Nil)
  then show ?thesis using assms True by (simp add: heappop_def)
next
  case False
  let ?h = "butlast heap"
  have 0: "0 < length ?h" using False by (cases "butlast heap") simp_all
  have "mset (siftup (?h[0 := last heap]) 0) = mset (?h[0 := last heap])"
    using 0 by (intro mset_siftup) simp
  also have "\<dots> = add_mset (last heap) (mset ?h - {#?h ! 0#})"
    using 0 by (simp add: mset_update)
  finally have "add_mset (?h ! 0) (mset (siftup (?h[0 := last heap]) 0))
      = add_mset (last heap) (mset ?h)"
    using 0 by simp
  moreover have "mset heap = add_mset (last heap) (mset ?h)"
  proof -
    have "mset (?h @ [last heap]) = add_mset (last heap) (mset ?h)" by simp
    then show ?thesis using append_butlast_last_id[OF assms] by simp
  qed
  ultimately show ?thesis using assms False by (simp add: heappop_def Let_def)
qed

lemma mset_heapify: "mset (heapify x) = mset x"
proof -
  have "\<forall>i \<in> set is. i < length h \<Longrightarrow> mset (fold (\<lambda>i heap. siftup heap i) is h) = mset h" for "is" h
  proof (induction "is" arbitrary: h)
    case Nil
    then show ?case by simp
  next
    case (Cons i "is")
    have m: "mset (siftup h i) = mset h" using Cons.prems by (intro mset_siftup) simp
    then have "length (siftup h i) = length h" by (metis size_mset)
    then show ?case using Cons m by simp
  qed
  moreover have "\<forall>i \<in> set (rev [0 ..< length x div 2]). i < length x"
    using div_le_dividend[of "length x" 2] by auto
  ultimately show ?thesis unfolding heapify_def by blast
qed

section \<open>The merge loop\<close>

lemma pop_loop_props:
  assumes "k \<le> length nodes"
  shows "\<exists>nodes' popped.
           pop_loop k nodes merged_count merged_children
             = Inr (nodes', merged_count + sum_list (map count popped), merged_children @ popped)
           \<and> length popped = k \<and> mset nodes = mset popped + mset nodes'"
  using assms
proof (induction k arbitrary: nodes merged_count merged_children)
  case 0
  then show ?case by simp
next
  case (Suc k)
  then have "nodes \<noteq> []" by auto
  then obtain x h where pop: "heappop nodes = Inr (x, h)" and ms: "mset nodes = add_mset x (mset h)"
    using heappop_mset by blast
  have "length nodes = Suc (length h)" using ms by (metis size_mset size_add_mset)
  then have "k \<le> length h" using Suc.prems by simp
  from Suc.IH[OF this, of "merged_count + count x" "merged_children @ [x]"]
  obtain nodes' popped where
    r: "pop_loop k h (merged_count + count x) (merged_children @ [x])
         = Inr (nodes', merged_count + count x + sum_list (map count popped),
                (merged_children @ [x]) @ popped)"
    and l: "length popped = k" and m: "mset h = mset popped + mset nodes'"
    by blast
  have "pop_loop (Suc k) nodes merged_count merged_children
      = Inr (nodes', merged_count + sum_list (map count (x # popped)),
             merged_children @ (x # popped))"
    using pop r by (simp add: add.assoc)
  moreover have "length (x # popped) = Suc k" using l by simp
  moreover have "mset nodes = mset (x # popped) + mset nodes'" using ms m by simp
  ultimately show ?case by blast
qed

lemma merge_step_props:
  "\<exists>popped rest.
      merge_step nodes num_branches
        = Inr (heappush rest (Node (sum_list (map count popped)) None popped))
      \<and> length popped = nat (min num_branches (int (length nodes)))
      \<and> mset nodes = mset popped + mset rest"
proof -
  have "nat (min num_branches (int (length nodes))) \<le> length nodes" by simp
  from pop_loop_props[OF this, of 0 "[]"]
  obtain nodes' popped where
    "pop_loop (nat (min num_branches (int (length nodes)))) nodes 0 []
       = Inr (nodes', sum_list (map count popped), popped)"
    "length popped = nat (min num_branches (int (length nodes)))"
    "mset nodes = mset popped + mset nodes'"
    by auto
  then have "merge_step nodes num_branches
        = Inr (heappush nodes' (Node (sum_list (map count popped)) None popped))
      \<and> length popped = nat (min num_branches (int (length nodes)))
      \<and> mset nodes = mset popped + mset nodes'"
    by (simp add: merge_step_def)
  then show ?thesis by blast
qed

lemma merge_loop_rule:
  assumes nb: "2 \<le> num_branches"
    and init: "P (mset nodes)"
    and step: "\<And>popped rest.
        P (mset popped + mset rest) \<Longrightarrow> 1 < length popped + length rest \<Longrightarrow>
        length popped = nat (min num_branches (int (length popped + length rest))) \<Longrightarrow>
        P (add_mset (Node (sum_list (map count popped)) None popped) (mset rest))"
  shows "\<exists>final. merge_loop nodes num_branches = Some (Inr final)
           \<and> length final = min 1 (length nodes) \<and> P (mset final)"
  using init
proof (induction "length nodes" arbitrary: nodes rule: less_induct)
  case less
  show ?case
  proof (cases "1 < length nodes")
    case False
    then have "merge_loop nodes num_branches = Some (Inr nodes)"
      by (subst merge_loop.simps) simp
    then show ?thesis using False less.prems by auto
  next
    case True
    obtain popped rest where
      ms: "merge_step nodes num_branches
             = Inr (heappush rest (Node (sum_list (map count popped)) None popped))"
      and lp: "length popped = nat (min num_branches (int (length nodes)))"
      and mn: "mset nodes = mset popped + mset rest"
      using merge_step_props by blast
    let ?new = "Node (sum_list (map count popped)) None popped"
    let ?nodes' = "heappush rest ?new"
    have len: "length nodes = length popped + length rest"
      using mn by (metis size_mset size_union)
    have m': "mset ?nodes' = add_mset ?new (mset rest)" by (rule mset_heappush)
    have len': "length ?nodes' = Suc (length rest)" using m' by (metis size_mset size_add_mset)
    have "2 \<le> length popped" using lp nb True by simp
    then have dec: "length ?nodes' < length nodes" using len len' by simp
    have "P (mset ?nodes')"
      unfolding m' using less.prems True lp unfolding mn len by (intro step) simp_all
    from less.hyps[OF dec this]
    obtain final where f: "merge_loop ?nodes' num_branches = Some (Inr final)"
      "length final = min 1 (length ?nodes')" "P (mset final)" by blast
    have "merge_loop nodes num_branches = Some (Inr final)"
      using True ms f(1) by (subst merge_loop.simps) simp
    moreover have "length final = min 1 (length nodes)" using f(2) len' True by simp
    ultimately show ?thesis using f(3) by blast
  qed
qed

section \<open>Invariants of the tree builder\<close>

lemma build_huffman_tree_unfold:
  "build_huffman_tree count_dict symbols =
     (if \<not> distinct symbols then Some (Inl ValueError)
      else case calculate_padding (int (length count_dict)) (int (length symbols)) of
             Inl e \<Rightarrow> Some (Inl e)
           | Inr (num_branch_points, num_padding) \<Rightarrow>
               merge_nodes (initial_nodes count_dict num_padding) (int (length symbols)))"
proof -
  have "(length symbols \<noteq> card (set symbols)) = (\<not> distinct symbols)"
    using distinct_card[of symbols] card_distinct[of symbols] by auto
  then show ?thesis
    by (auto simp: build_huffman_tree_def initial_nodes_def Let_def split: sum.splits)
qed

lemma merge_nodes_rule:
  assumes nb: "2 \<le> num_branches"
    and init: "P (mset nodes)"
    and step: "\<And>popped rest.
        P (mset popped + mset rest) \<Longrightarrow> 1 < length popped + length rest \<Longrightarrow>
        length popped = nat (min num_branches (int (length popped + length rest))) \<Longrightarrow>
        P (add_mset (Node (sum_list (map count popped)) None popped) (mset rest))"
  shows "(nodes = [] \<longrightarrow> merge_nodes nodes num_branches = Some (Inr None))
       \<and> (nodes \<noteq> [] \<longrightarrow>
            (\<exists>r. merge_nodes nodes num_branches = Some (Inr (Some r)) \<and> P {#r#}))"
proof -
  have "P (mset (heapify nodes))" using init by (simp add: mset_heapify)
  from merge_loop_rule[of num_branches P "heapify nodes", OF nb this step]
  obtain final where f: "merge_loop (heapify nodes) num_branches = Some (Inr final)"
    "length final = min 1 (length (heapify nodes))" "P (mset final)"
    by blast
  have len: "length (heapify nodes) = length nodes"
    using mset_heapify[of nodes] by (metis size_mset)
  show ?thesis
  proof (cases "nodes = []")
    case True
    then have "final = []" using f(2) len by simp
    then show ?thesis using True f(1) by (simp add: merge_nodes_def)
  next
    case False
    then have "length final = 1" using f(2) len by (cases nodes) simp_all
    then obtain r where r: "final = [r]" by (cases final) auto
    then have "merge_nodes nodes num_branches = Some (Inr (Some r))"
      using f(1) by (simp add: merge_nodes_def)
    moreover have "P {#r#}" using f(3) r by simp
    ultimately show ?thesis using False by blast
  qed
qed

lemma build_huffman_tree_root:
  assumes built: "build_huffman_tree count_dict symbols = Some (Inr (Some r))"
    and nb: "2 \<le> length symbols"
    and init: "\<And>num_branch_points num_padding.
        calculate_padding (int (length count_dict)) (int (length symbols))
          = Inr (num_branch_points, num_padding) \<Longrightarrow>
        P (mset (initial_nodes count_dict num_padding))"
    and step: "\<And>popped rest.
        P (mset popped + mset rest) \<Longrightarrow> 1 < length popped + length rest \<Longrightarrow>
        length popped = nat (min (int (length symbols)) (int (length popped + length rest))) \<Longrightarrow>
        P (add_mset (Node (sum_list (map count popped)) None popped) (mset rest))"
  shows "P {#r#}"
proof -
  have d: "distinct symbols" using built by (auto simp: build_huffman_tree_unfold split: if_splits)
  obtain nbp npad where
    cp: "calculate_padding (int (length count_dict)) (int (length symbols)) = Inr (nbp, npad)"
    using built d by (auto simp: build_huffman_tree_unfold split: sum.splits)
  have mn: "merge_nodes (initial_nodes count_dict npad) (int (length symbols))
      = Some (Inr (Some r))"
    using built d cp by (simp add: build_huffman_tree_unfold)
  have "2 \<le> int (length symbols)" using nb by simp
  from merge_nodes_rule[of "int (length symbols)" P "initial_nodes count_dict npad",
      OF this init[OF cp] step]
  show ?thesis using mn by (cases "initial_nodes count_dict npad = []") auto
qed


lemma sum_mset_count: "sum_mset (image_mset count (mset xs)) = sum_list (map count xs)"
  by (induction xs) simp_all

lemma mset_concat_map: "mset (concat (map f xs)) = (\<Sum>x \<in># mset xs. mset (f x))"
  by (induction xs) simp_all

lemma initial_nodes_count:
  "sum_list (map count (initial_nodes count_dict num_padding)) = sum_list (map snd count_dict)"
proof -
  have "sum_list (map count (map (\<lambda>(target, count). Node count (Some target) []) count_dict))
      = sum_list (map snd count_dict)"
    by (induction count_dict) auto
  then show ?thesis by (simp add: initial_nodes_def sum_list_replicate)
qed

lemma initial_nodes_targets:
  "concat (map targets_of (initial_nodes count_dict num_padding)) = map fst count_dict"
proof -
  have "concat (map targets_of (map (\<lambda>(target, count). Node count (Some target) []) count_dict))
      = map fst count_dict"
    by (induction count_dict) auto
  moreover have "concat (map targets_of (replicate k (Node 0 None []))) = []" for k
    by (induction k) simp_all
  ultimately show ?thesis by (simp add: initial_nodes_def)
qed

lemma initial_nodes_leaves:
  assumes "r \<in> set (initial_nodes count_dict num_padding)"
  shows "children r = []"
  using assms by (auto simp: initial_nodes_def)

lemma nodes_of_leaf: "children r = [] \<Longrightarrow> nodes_of r = [r]"
  by (cases r) simp

lemma build_huffman_tree_weight:
  assumes "build_huffman_tree count_dict symbols = Some (Inr (Some r))" "2 \<le> length symbols"
  shows "count r = sum_list (map snd count_dict)"
proof -
  let ?P = "\<lambda>M. sum_mset (image_mset count M) = sum_list (map snd count_dict)"
  have "?P {#r#}"
  proof (rule build_huffman_tree_root[OF assms, of ?P])
    fix num_branch_points num_padding
    show "?P (mset (initial_nodes count_dict num_padding))"
      by (simp only: sum_mset_count initial_nodes_count)
  next
    fix popped rest
    assume "?P (mset popped + mset rest)"
    then show "?P (add_mset (Node (sum_list (map count popped)) None popped) (mset rest))"
      by (simp add: sum_mset_count)
  qed
  then show ?thesis by simp
qed

lemma build_huffman_tree_targets:
  assumes "build_huffman_tree count_dict symbols = Some (Inr (Some r))" "2 \<le> length symbols"
  shows "mset (targets_of r) = mset (map fst count_dict)"
proof -
  let ?P = "\<lambda>M. (\<Sum>n \<in># M. mset (targets_of n)) = mset (map fst count_dict)"
  have "?P {#r#}"
  proof (rule build_huffman_tree_root[OF assms, of ?P])
    fix num_branch_points num_padding
    show "?P (mset (initial_nodes count_dict num_padding))"
      by (simp only: mset_concat_map[symmetric] initial_nodes_targets)
  next
    fix popped rest
    assume "?P (mset popped + mset rest)"
    then show "?P (add_mset (Node (sum_list (map count popped)) None popped) (mset rest))"
      by (simp add: mset_concat_map)
  qed
  then show ?thesis by simp
qed

lemma build_huffman_tree_shape:
  assumes "build_huffman_tree count_dict symbols = Some (Inr (Some r))" "2 \<le> length symbols"
  shows "\<forall>n \<in> set (nodes_of r).
           length (children n) \<le> length symbols \<and> (target n \<noteq> None \<longrightarrow> children n = [])"
proof -
  let ?ok = "\<lambda>n. length (children n) \<le> length symbols \<and> (target n \<noteq> None \<longrightarrow> children n = [])"
  let ?P = "\<lambda>M. \<forall>t \<in># M. \<forall>n \<in> set (nodes_of t). ?ok n"
  have "?P {#r#}"
  proof (rule build_huffman_tree_root[OF assms, of ?P])
    fix num_branch_points num_padding
    show "?P (mset (initial_nodes count_dict num_padding))"
      using initial_nodes_leaves nodes_of_leaf by fastforce
  next
    fix popped rest
    assume p: "?P (mset popped + mset rest)"
      and l: "length popped = nat (min (int (length symbols)) (int (length popped + length rest)))"
    have "length popped \<le> length symbols" using l by simp
    then show "?P (add_mset (Node (sum_list (map count popped)) None popped) (mset rest))"
      using p by auto
  qed
  then show ?thesis by simp
qed

lemma build_huffman_tree_returns_if:
  assumes "distinct symbols" "2 \<le> length symbols" "count_dict \<noteq> []"
    and cp: "calculate_padding (int (length count_dict)) (int (length symbols)) = Inr (nbp, npad)"
  shows "\<exists>r. build_huffman_tree count_dict symbols = Some (Inr (Some r))"
proof -
  have ne: "initial_nodes count_dict npad \<noteq> []" using assms(3) by (simp add: initial_nodes_def)
  have "2 \<le> int (length symbols)" using assms(2) by simp
  from merge_nodes_rule[of "int (length symbols)" "\<lambda>_. True" "initial_nodes count_dict npad", OF this]
  obtain r where "merge_nodes (initial_nodes count_dict npad) (int (length symbols))
      = Some (Inr (Some r))"
    using ne by auto
  then show ?thesis using assms(1) cp by (auto simp: build_huffman_tree_unfold)
qed

lemma build_huffman_tree_returns:
  assumes "distinct symbols" "2 \<le> length symbols" "length symbols \<le> 2 ^ 53 + 1"
    and "count_dict \<noteq> []" "length count_dict \<le> 2 ^ 53 + 1"
  shows "\<exists>r. build_huffman_tree count_dict symbols = Some (Inr (Some r))"
proof -
  have "int (length count_dict) \<le> 2 ^ 53 + 1" "int (length symbols) \<le> 2 ^ 53 + 1"
    using assms(3,5) by (simp_all add: le_nat_iff[symmetric] nat_add_distrib nat_power_eq)
  then obtain nbp npad where
    "calculate_padding (int (length count_dict)) (int (length symbols)) = Inr (nbp, npad)"
    using calculate_padding_exact[of "int (length count_dict)" "int (length symbols)"] assms(2)
    by auto
  then show ?thesis using assms(1,2,4) by (rule build_huffman_tree_returns_if[rotated 3])
qed

lemma initial_nodes_size:
  assumes n: "0 \<le> n" "n \<le> 2 ^ 53 + 1" and b: "2 \<le> nb" "nb \<le> 2 ^ 53 + 1"
    and cp: "calculate_padding n nb = Inr (nbp, npad)"
  shows "\<exists>k. n + int (nat npad) = 1 + (nb - 1) * int k \<or> n + int (nat npad) = 0"
proof -
  define c where "c = \<lceil>(of_int (n - 1) / of_int (nb - 1) :: rat)\<rceil>"
  have npad: "npad = 1 + (nb - 1) * c - n"
    using cp calculate_padding_exact[OF n b] by (auto simp: c_def)
  have bpos: "(0::rat) < of_int (nb - 1)" using b by simp
  have "(of_int (n - 1) / of_int (nb - 1) :: rat) \<le> of_int c"
    unfolding c_def by (rule le_of_int_ceiling)
  then have "(of_int (n - 1) :: rat) \<le> of_int c * of_int (nb - 1)"
    using bpos by (simp add: pos_divide_le_eq)
  then have "(of_int (n - 1) :: rat) \<le> of_int (c * (nb - 1))" by simp
  then have le: "n - 1 \<le> c * (nb - 1)" by (simp only: of_int_le_iff)
  then have pad0: "0 \<le> npad" unfolding npad by (simp add: mult.commute)
  show ?thesis
  proof (cases "0 \<le> c")
    case True
    have "n + int (nat npad) = 1 + (nb - 1) * int (nat c)"
      using pad0 True by (simp add: npad)
    then show ?thesis by blast
  next
    case False
    then have "c \<le> - 1" by simp
    then have "c * (nb - 1) \<le> - 1 * (nb - 1)"
      using b by (intro mult_right_mono) simp_all
    then have "c * (nb - 1) \<le> - 1" using b by simp
    then have "n = 0" "c * (nb - 1) = - 1" using le n by simp_all
    then have "n + int (nat npad) = 0" unfolding npad by (simp add: mult.commute)
    then show ?thesis by blast
  qed
qed

lemma build_huffman_tree_arity:
  assumes built: "build_huffman_tree count_dict symbols = Some (Inr (Some r))"
    and nb: "2 \<le> length symbols" "length symbols \<le> 2 ^ 53 + 1"
    and n: "length count_dict \<le> 2 ^ 53 + 1"
  shows "\<forall>n \<in> set (nodes_of r). children n \<noteq> [] \<longrightarrow> length (children n) = length symbols"
proof -
  let ?b = "length symbols"
  let ?ok = "\<lambda>n. children n \<noteq> [] \<longrightarrow> length (children n) = ?b"
  let ?P = "\<lambda>M. (\<forall>t \<in># M. \<forall>n \<in> set (nodes_of t). ?ok n) \<and> (?b - 1) dvd (size M - 1)"
  have bi: "int (length count_dict) \<le> 2 ^ 53 + 1" "int ?b \<le> 2 ^ 53 + 1"
    using nb(2) n by (simp_all add: le_nat_iff[symmetric] nat_add_distrib nat_power_eq)
  have "?P {#r#}"
  proof (rule build_huffman_tree_root[OF built nb(1), of ?P])
    fix num_branch_points num_padding
    assume cp: "calculate_padding (int (length count_dict)) (int ?b)
        = Inr (num_branch_points, num_padding)"
    let ?N = "length (initial_nodes count_dict num_padding)"
    have N: "int ?N = int (length count_dict) + int (nat num_padding)"
      by (simp add: initial_nodes_def)
    from initial_nodes_size[OF _ bi(1) _ bi(2) cp] nb(1)
    obtain k where "int ?N = 1 + (int ?b - 1) * int k \<or> int ?N = 0"
      unfolding N by auto
    then have "(?b - 1) dvd (?N - 1)"
    proof
      assume a: "int ?N = 1 + (int ?b - 1) * int k"
      have "0 \<le> (int ?b - 1) * int k" using nb(1) by (intro mult_nonneg_nonneg) auto
      then have "1 \<le> ?N" using a by linarith
      then have N1: "int (?N - 1) = int ?N - 1" by linarith
      have "1 \<le> ?b" using nb(1) by simp
      then have b1: "int (?b - 1) = int ?b - 1" by linarith
      have m: "int ((?b - 1) * k) = (int ?b - 1) * int k"
        unfolding of_nat_mult b1 by (rule refl)
      have "int (?N - 1) = int ((?b - 1) * k)" unfolding N1 m a by simp
      then have "?N - 1 = (?b - 1) * k" by (simp only: of_nat_eq_iff)
      then show ?thesis by simp
    next
      assume "int ?N = 0"
      then show ?thesis by simp
    qed
    moreover have "\<forall>t \<in> set (initial_nodes count_dict num_padding). \<forall>n \<in> set (nodes_of t). ?ok n"
      using initial_nodes_leaves nodes_of_leaf by fastforce
    ultimately show "?P (mset (initial_nodes count_dict num_padding))" by simp
  next
    fix popped rest
    assume p: "?P (mset popped + mset rest)"
      and s: "1 < length popped + length rest"
      and l: "length popped = nat (min (int ?b) (int (length popped + length rest)))"
    let ?s = "length popped + length rest"
    have d: "(?b - 1) dvd (?s - 1)" using p by simp
    have "?b - 1 \<le> ?s - 1" using d s by (intro dvd_imp_le) simp_all
    then have ge: "?b \<le> ?s" using nb(1) by simp
    then have lp: "length popped = ?b" using l by simp
    have lr: "length rest = (?s - 1) - (?b - 1)" using lp nb(1) by simp
    have "(?b - 1) dvd ((?s - 1) - (?b - 1))" by (rule dvd_diff_nat[OF d dvd_refl])
    then have "(?b - 1) dvd length rest" using lr by simp
    then show "?P (add_mset (Node (sum_list (map count popped)) None popped) (mset rest))"
      using p lp by auto
  qed
  then show ?thesis by simp
qed

lemma merge_three_even:
  assumes built: "build_huffman_tree count_dict [s1, s2, s3] = Some (Inr (Some r))"
    and cp: "calculate_padding (int (length count_dict)) 3 = Inr (nbp, npad)"
    and ev: "even (length count_dict + nat npad)" "length count_dict + nat npad \<noteq> 0"
  shows "length (children r) = 2"
proof -
  let ?P = "\<lambda>M. (size M = 1 \<longrightarrow> (\<forall>t \<in># M. length (children t) = 2))
                \<and> (size M \<noteq> 1 \<longrightarrow> even (size M) \<and> size M \<noteq> 0)"
  have "?P {#r#}"
  proof (rule build_huffman_tree_root[OF built, of ?P])
    show "2 \<le> length [s1, s2, s3]" by simp
  next
    fix num_branch_points num_padding
    assume "calculate_padding (int (length count_dict)) (int (length [s1, s2, s3]))
        = Inr (num_branch_points, num_padding)"
    then have "num_padding = npad" using cp by simp
    then have sz: "size (mset (initial_nodes count_dict num_padding))
        = length count_dict + nat npad"
      by (simp add: initial_nodes_def)
    have "length count_dict + nat npad \<noteq> 1" by (metis ev(1) odd_one)
    then show "?P (mset (initial_nodes count_dict num_padding))"
      unfolding sz using ev by simp
  next
    fix popped rest
    assume p: "?P (mset popped + mset rest)"
      and s: "1 < length popped + length rest"
      and l: "length popped
          = nat (min (int (length [s1, s2, s3])) (int (length popped + length rest)))"
    let ?s = "length popped + length rest"
    have e: "even ?s" using p s by simp
    show "?P (add_mset (Node (sum_list (map count popped)) None popped) (mset rest))"
    proof (cases "?s = 2")
      case True
      then have "length popped = 2" "length rest = 0" using l by simp_all
      then show ?thesis by simp
    next
      case False
      then have "4 \<le> ?s" using e s by presburger
      then have lp: "length popped = 3" using l by simp
      then have "length rest = ?s - 3" by simp
      then have "even (Suc (length rest))" "Suc (length rest) \<noteq> 1"
        using e \<open>4 \<le> ?s\<close> by presburger+
      then show ?thesis by simp
    qed
  qed
  then show ?thesis by simp
qed

lemma length_big_table: "length big_table = 2 ^ 53 + 2"
  unfolding big_table_def by (simp only: length_map length_upt diff_zero)

lemma distinct_big_table: "distinct (map fst big_table)"
proof -
  have "inj_on (\<lambda>i. replicate i (CHR ''t'')) A" for A
    by (rule inj_onI) (metis length_replicate)
  moreover have "map fst big_table = map (\<lambda>i. replicate i (CHR ''t'')) [0 ..< 2 ^ 53 + 2]"
    unfolding big_table_def by (simp only: map_map comp_def fst_conv)
  ultimately show ?thesis by (simp only: distinct_map distinct_upt simp_thms)
qed

lemma calculate_padding_big: "calculate_padding (2 ^ 53 + 2) 3 = Inr (2 ^ 52, - 1)"
  by code_simp

section \<open>The traversal\<close>

lemma fold_record_code_shift:
  "fold (record_code count_dict path) (map (\<lambda>(w, tg). (s # w, tg)) xs) em
     = fold (record_code count_dict (path @ [s])) xs em"
  by (induction xs arbitrary: em) (auto simp: record_code_def)

lemma code_words_targets:
  "map snd (code_words symbols node) = targets_of node"
  and "map snd (code_words_children symbols i cs) = concat (map targets_of cs)"
proof (induction symbols node and symbols i cs rule: code_words_code_words_children.induct)
  case (1 symbols c t cs)
  then show ?case by (cases t) simp_all
next
  case (2 symbols i)
  then show ?case by simp
next
  case (3 symbols i child rest)
  have "map snd (map (\<lambda>(w, tg). (symbols ! i # w, tg)) (code_words symbols child))
      = map snd (code_words symbols child)"
    by (simp add: case_prod_beta comp_def)
  then show ?case using 3 by simp
qed

lemma incomparable_Cons_map: "incomparable (map ((#) s) ws) = incomparable ws"
  by (auto simp: incomparable_def distinct_map inj_on_def)

lemma incomparable_append:
  assumes "incomparable xs" "incomparable ys"
    and "\<forall>x \<in> set xs. \<forall>y \<in> set ys. \<not> prefix x y \<and> \<not> prefix y x"
  shows "incomparable (xs @ ys)"
  using assms unfolding incomparable_def by auto

lemma map_fst_shift:
  "map fst (map (\<lambda>(w, tg). (s # w, tg)) xs) = map ((#) s) (map fst xs)"
  by (simp add: case_prod_beta comp_def)

lemma code_words_incomparable:
  "distinct symbols \<Longrightarrow>
   (\<forall>n \<in> set (nodes_of node).
      length (children n) \<le> length symbols \<and> (target n \<noteq> None \<longrightarrow> children n = [])) \<Longrightarrow>
   incomparable (map fst (code_words symbols node))"
  and
  "distinct symbols \<Longrightarrow> i + length cs \<le> length symbols \<Longrightarrow>
   (\<forall>c \<in> set cs. \<forall>n \<in> set (nodes_of c).
      length (children n) \<le> length symbols \<and> (target n \<noteq> None \<longrightarrow> children n = [])) \<Longrightarrow>
   incomparable (map fst (code_words_children symbols i cs))
   \<and> (\<forall>w \<in> set (map fst (code_words_children symbols i cs)).
        \<exists>k v. i \<le> k \<and> k < length symbols \<and> w = symbols ! k # v)"
proof (induction symbols node and symbols i cs rule: code_words_code_words_children.induct)
  case (1 symbols c t cs)
  show ?case
  proof (cases t)
    case None
    have "0 + length cs \<le> length symbols" using "1.prems"(2) by simp
    moreover have "\<forall>ch \<in> set cs. \<forall>n \<in> set (nodes_of ch).
        length (children n) \<le> length symbols \<and> (target n \<noteq> None \<longrightarrow> children n = [])"
      using "1.prems"(2) by auto
    ultimately show ?thesis using "1.IH"[OF "1.prems"(1)] None by simp
  next
    case (Some tg)
    then have "cs = []" using "1.prems"(2) by simp
    then show ?thesis using Some by (simp add: incomparable_def)
  qed
next
  case (2 symbols i)
  then show ?case by (simp add: incomparable_def)
next
  case (3 symbols i child rest)
  let ?xs = "map ((#) (symbols ! i)) (map fst (code_words symbols child))"
  let ?ys = "map fst (code_words_children symbols (i + 1) rest)"
  have i: "i < length symbols" using "3.prems"(2) by simp
  have c1: "\<forall>n \<in> set (nodes_of child).
      length (children n) \<le> length symbols \<and> (target n \<noteq> None \<longrightarrow> children n = [])"
    using "3.prems"(3) by simp
  have r0: "i + 1 + length rest \<le> length symbols" using "3.prems"(2) by simp
  have r1: "\<forall>c \<in> set rest. \<forall>n \<in> set (nodes_of c).
      length (children n) \<le> length symbols \<and> (target n \<noteq> None \<longrightarrow> children n = [])"
    using "3.prems"(3) by simp
  have ix: "incomparable ?xs"
    using "3.IH"(1)[OF "3.prems"(1) c1] by (simp only: incomparable_Cons_map)
  have iy: "incomparable ?ys"
    and hy: "\<forall>w \<in> set ?ys. \<exists>k v. i + 1 \<le> k \<and> k < length symbols \<and> w = symbols ! k # v"
    using "3.IH"(2)[OF "3.prems"(1) r0 r1] by blast+
  have cross: "\<forall>x \<in> set ?xs. \<forall>y \<in> set ?ys. \<not> prefix x y \<and> \<not> prefix y x"
  proof (intro ballI)
    fix x y assume x: "x \<in> set ?xs" and y: "y \<in> set ?ys"
    from x obtain u where u: "x = symbols ! i # u" by auto
    from y hy obtain k v where k: "i + 1 \<le> k" "k < length symbols" "y = symbols ! k # v"
      by blast
    have "symbols ! i \<noteq> symbols ! k"
      using "3.prems"(1) i k(1,2) by (simp add: nth_eq_iff_index_eq)
    then show "\<not> prefix x y \<and> \<not> prefix y x" using u k(3) by simp
  qed
  have eq: "map fst (code_words_children symbols i (child # rest)) = ?xs @ ?ys"
    by (simp only: code_words_children.simps map_append map_fst_shift)
  have "incomparable (?xs @ ?ys)" using ix iy cross by (rule incomparable_append)
  moreover have "\<forall>w \<in> set (?xs @ ?ys). \<exists>k v. i \<le> k \<and> k < length symbols \<and> w = symbols ! k # v"
  proof
    fix w assume "w \<in> set (?xs @ ?ys)"
    then consider "w \<in> set ?xs" | "w \<in> set ?ys" by auto
    then show "\<exists>k v. i \<le> k \<and> k < length symbols \<and> w = symbols ! k # v"
    proof cases
      case 1
      then obtain u where "w = symbols ! i # u" by auto
      then show ?thesis using i by blast
    next
      case 2
      with hy obtain k v where "i + 1 \<le> k" "k < length symbols" "w = symbols ! k # v" by blast
      then show ?thesis by (metis add_leD1)
    qed
  qed
  ultimately show ?case unfolding eq by blast
qed

lemma update_fresh: "k \<notin> fst ` set em \<Longrightarrow> AList.update k v em = em @ [(k, v)]"
  by (induction em) auto

lemma fold_update_fresh:
  "distinct (map fst em @ map fst kvs) \<Longrightarrow>
   fold (\<lambda>(k, v). AList.update k v) kvs em = em @ kvs"
proof (induction kvs arbitrary: em)
  case Nil
  then show ?case by simp
next
  case (Cons kv kvs)
  obtain k v where kv: "kv = (k, v)" by (cases kv)
  have "k \<notin> fst ` set em" using Cons.prems kv by auto
  then have u: "AList.update k v em = em @ [(k, v)]" by (rule update_fresh)
  have "distinct (map fst (em @ [(k, v)]) @ map fst kvs)" using Cons.prems kv by simp
  from Cons.IH[OF this] show ?case using kv u by simp
qed

lemma merge_loop_no_error:
  assumes "merge_loop nodes num_branches = Some y"
  shows "\<not> isl y"
proof (rule merge_loop.raw_induct[where P = "\<lambda>_ _ y. \<not> isl y", OF _ assms])
  fix loop :: "node list \<Rightarrow> int \<Rightarrow> (error + node list) option"
    and nodes num_branches y
  assume IH: "\<And>nodes num_branches y. loop nodes num_branches = Some y \<Longrightarrow> \<not> isl y"
    and eq: "(if 1 < length nodes then
               (case merge_step nodes num_branches of
                  Inl e \<Rightarrow> Some (Inl e)
                | Inr nodes' \<Rightarrow> loop nodes' num_branches)
             else Some (Inr nodes)) = Some y"
  show "\<not> isl y"
  proof (cases "1 < length nodes")
    case True
    obtain nodes' where s: "merge_step nodes num_branches = Inr nodes'"
      using merge_step_props[of nodes num_branches] by blast
    then have "loop nodes' num_branches = Some y" using eq True by simp
    then show ?thesis by (rule IH)
  next
    case False
    then show ?thesis using eq by auto
  qed
qed

lemma merge_nodes_no_error: "merge_nodes nodes num_branches \<noteq> Some (Inl e)"
proof
  assume a: "merge_nodes nodes num_branches = Some (Inl e)"
  then obtain y where y: "merge_loop (heapify nodes) num_branches = Some y"
    by (auto simp: merge_nodes_def split: option.splits)
  then have "\<not> isl y" by (rule merge_loop_no_error)
  then show False using a y by (auto simp: merge_nodes_def split: sum.splits)
qed

lemma calculate_padding_errors:
  "calculate_padding n b = Inl e \<Longrightarrow> e = ZeroDivisionError \<or> e = OverflowError"
  by (auto simp: calculate_padding_def true_divide_def Let_def split: sum.splits if_splits)

lemma map_of_table:
  assumes "distinct (map fst count_dict)"
  shows "map (\<lambda>tg. (tg, the (map_of count_dict tg))) (map fst count_dict) = count_dict"
proof -
  have "\<forall>p \<in> set count_dict. (fst p, the (map_of count_dict (fst p))) = p"
    using assms by (auto simp: map_of_eq_Some_iff[OF assms])
  then show ?thesis by (simp add: map_idI comp_def)
qed

lemma calculate_padding_zero_two: "calculate_padding 0 2 = Inr (- 1, 0)"
proof -
  have "\<lceil>(- 1 :: rat)\<rceil> = - 1" by (rule ceiling_unique) simp_all
  then show ?thesis
    by (simp add: calculate_padding_def true_divide_minus_one_one Let_def)
qed

lemma calculate_padding_zero_more:
  assumes "3 \<le> num_branches"
  shows "calculate_padding 0 num_branches = Inr (0, 1)"
proof -
  have "2 \<le> num_branches - 1" using assms by simp
  from true_divide_minus_one[OF this] show ?thesis
    by (auto simp: calculate_padding_def)
qed

lemma merge_nodes_single: "merge_nodes [x] num_branches = Some (Inr (Some x))"
proof -
  have "heapify [x] = [x]" by (simp add: heapify_def)
  moreover have "merge_loop [x] num_branches = Some (Inr [x])"
    by (subst merge_loop.simps) simp
  ultimately show ?thesis by (simp add: merge_nodes_def)
qed

lemma merge_nodes_empty: "merge_nodes [] num_branches = Some (Inr None)"
proof -
  have "heapify [] = []" by (simp add: heapify_def)
  moreover have "merge_loop [] num_branches = Some (Inr [])"
    by (subst merge_loop.simps) simp
  ultimately show ?thesis by (simp add: merge_nodes_def)
qed

lemma merge_loop_no_branches:
  assumes "merge_loop nodes num_branches = Some y"
  shows "num_branches \<le> 0 \<longrightarrow> length nodes \<le> 1"
proof (rule merge_loop.raw_induct[where P = "\<lambda>nodes nb y. nb \<le> 0 \<longrightarrow> length nodes \<le> 1",
      OF _ assms])
  fix loop :: "node list \<Rightarrow> int \<Rightarrow> (error + node list) option"
    and nodes num_branches y
  assume IH: "\<And>nodes num_branches y.
      loop nodes num_branches = Some y \<Longrightarrow> num_branches \<le> 0 \<longrightarrow> length nodes \<le> 1"
    and eq: "(if 1 < length nodes then
               (case merge_step nodes num_branches of
                  Inl e \<Rightarrow> Some (Inl e)
                | Inr nodes' \<Rightarrow> loop nodes' num_branches)
             else Some (Inr nodes)) = Some y"
  show "num_branches \<le> 0 \<longrightarrow> length nodes \<le> 1"
  proof (intro impI, rule ccontr)
    assume nb: "num_branches \<le> 0" and "\<not> length nodes \<le> 1"
    then have big: "1 < length nodes" by simp
    obtain popped rest where
      ms: "merge_step nodes num_branches
             = Inr (heappush rest (Node (sum_list (map count popped)) None popped))"
      and lp: "length popped = nat (min num_branches (int (length nodes)))"
      and mn: "mset nodes = mset popped + mset rest"
      using merge_step_props by blast
    let ?nodes' = "heappush rest (Node (sum_list (map count popped)) None popped)"
    have "popped = []" using lp nb by simp
    then have "length rest = length nodes" using mn by (metis add_0 mset.simps(1) size_mset)
    moreover have "length ?nodes' = Suc (length rest)"
      using mset_heappush[of rest] by (metis size_mset size_add_mset)
    ultimately have "1 < length ?nodes'" using big by linarith
    moreover have "loop ?nodes' num_branches = Some y" using eq big ms by simp
    ultimately show False using IH nb by fastforce
  qed
qed

lemma build_huffman_tree_no_symbols_diverges:
  "build_huffman_tree [(''x'', 1), (''y'', 2)] [] = None"
proof -
  let ?nodes = "initial_nodes [(''x'', 1), (''y'', 2)] 0"
  have cp: "calculate_padding 2 0 = Inr (- 1, 0)" by code_simp
  have "length ?nodes = 2" by (simp add: initial_nodes_def)
  moreover have "length (heapify ?nodes) = length ?nodes"
    using mset_heapify[of ?nodes] by (metis size_mset)
  ultimately have len: "length (heapify ?nodes) = 2" by simp
  have "merge_loop (heapify ?nodes) 0 = None"
  proof (cases "merge_loop (heapify ?nodes) 0")
    case None
    then show ?thesis .
  next
    case (Some y)
    from merge_loop_no_branches[OF this] len show ?thesis by simp
  qed
  then show ?thesis
    using cp by (simp add: build_huffman_tree_unfold merge_nodes_def)
qed

lemma build_huffman_tree_empty_table:
  assumes "distinct symbols"
  shows "(3 \<le> length symbols \<longrightarrow>
            build_huffman_tree [] symbols = Some (Inr (Some (Node 0 None []))))
       \<and> (length symbols = 2 \<longrightarrow> build_huffman_tree [] symbols = Some (Inr None))"
proof (intro conjI impI)
  assume "3 \<le> length symbols"
  then have "calculate_padding 0 (int (length symbols)) = Inr (0, 1)"
    by (intro calculate_padding_zero_more) simp
  then show "build_huffman_tree [] symbols = Some (Inr (Some (Node 0 None [])))"
    using assms by (simp add: build_huffman_tree_unfold initial_nodes_def merge_nodes_single)
next
  assume "length symbols = 2"
  then have "calculate_padding 0 (int (length symbols)) = Inr (- 1, 0)"
    using calculate_padding_zero_two by simp
  then show "build_huffman_tree [] symbols = Some (Inr None)"
    using assms by (simp add: build_huffman_tree_unfold initial_nodes_def merge_nodes_empty)
qed

lemma incomparable_prefix_free: "incomparable ws \<Longrightarrow> prefix_free ws"
  unfolding incomparable_def prefix_free_def by blast

lemma fold_max_le: "(fold max xs a \<le> (d::nat)) = (a \<le> d \<and> (\<forall>x \<in> set xs. x \<le> d))"
  by (induction xs arbitrary: a) auto

lemma depth_of_le: "(depth_of (Node c t cs) \<le> d) = (\<forall>child \<in> set cs. Suc (depth_of child) \<le> d)"
  by (simp add: fold_max_le)

lemma traverse_result:
  "(\<forall>n \<in> set (nodes_of node). length (children n) \<le> length symbols) \<Longrightarrow>
   set (targets_of node) \<subseteq> dom (map_of count_dict) \<Longrightarrow>
   traverse max_depth symbols count_dict node path em
     = (if depth_of node \<le> max_depth
        then Inr (fold (record_code count_dict path) (code_words symbols node) em)
        else Inl RecursionError)"
  and
  "i + length cs \<le> length symbols \<Longrightarrow>
   (\<forall>c \<in> set cs. \<forall>n \<in> set (nodes_of c). length (children n) \<le> length symbols) \<Longrightarrow>
   (\<forall>c \<in> set cs. set (targets_of c) \<subseteq> dom (map_of count_dict)) \<Longrightarrow>
   traverse_children max_depth symbols count_dict i cs path em
     = (if \<forall>c \<in> set cs. Suc (depth_of c) \<le> max_depth
        then Inr (fold (record_code count_dict path) (code_words_children symbols i cs) em)
        else Inl RecursionError)"
proof (induction max_depth symbols count_dict node path em
    and max_depth symbols count_dict i cs path em
    rule: traverse_traverse_children.induct)
  case (1 max_depth symbols count_dict c t cs path encoding_map)
  have len: "0 + length cs \<le> length symbols" using "1.prems"(1) by simp
  have sub: "\<forall>ch \<in> set cs. \<forall>n \<in> set (nodes_of ch). length (children n) \<le> length symbols"
    using "1.prems"(1) by auto
  have tg: "\<forall>ch \<in> set cs. set (targets_of ch) \<subseteq> dom (map_of count_dict)"
    using "1.prems"(2) by auto
  show ?case
  proof (cases t)
    case None
    then show ?thesis
      using "1.IH"[OF _ len sub tg, of encoding_map] by (simp add: fold_max_le)
  next
    case (Some tg')
    then obtain cnt where cnt: "map_of count_dict tg' = Some cnt"
      using "1.prems"(2) by auto
    show ?thesis
      using "1.IH"[OF _ len sub tg, of "AList.update path (tg', cnt) encoding_map"] Some cnt
      by (simp add: record_code_def fold_max_le)
  qed
next
  case (2 max_depth symbols count_dict i path encoding_map)
  then show ?case by simp
next
  case (3 max_depth symbols count_dict i child rest path encoding_map)
  have i: "i < length symbols" using "3.prems"(1) by simp
  have c1: "\<forall>n \<in> set (nodes_of child). length (children n) \<le> length symbols"
    and c2: "set (targets_of child) \<subseteq> dom (map_of count_dict)"
    using "3.prems" by simp_all
  have r0: "i + 1 + length rest \<le> length symbols" using "3.prems"(1) by simp
  have r1: "\<forall>c \<in> set rest. \<forall>n \<in> set (nodes_of c). length (children n) \<le> length symbols"
    and r2: "\<forall>c \<in> set rest. set (targets_of c) \<subseteq> dom (map_of count_dict)"
    using "3.prems" by simp_all
  show ?case
  proof (cases "max_depth = 0")
    case True
    then show ?thesis using i by auto
  next
    case False
    have t: "traverse (max_depth - 1) symbols count_dict child (path @ [symbols ! i]) encoding_map
        = (if depth_of child \<le> max_depth - 1
           then Inr (fold (record_code count_dict (path @ [symbols ! i]))
                       (code_words symbols child) encoding_map)
           else Inl RecursionError)"
      using "3.IH"(1)[OF i False c1 c2] .
    have le: "(depth_of child \<le> max_depth - 1) = (Suc (depth_of child) \<le> max_depth)"
      using False by auto
    show ?thesis
    proof (cases "Suc (depth_of child) \<le> max_depth")
      case deep: False
      then show ?thesis using i False t le by simp
    next
      case True
      then have t': "traverse (max_depth - 1) symbols count_dict child (path @ [symbols ! i])
          encoding_map
          = Inr (fold (record_code count_dict (path @ [symbols ! i]))
                   (code_words symbols child) encoding_map)"
        using t le by simp
      show ?thesis
        using i False True t' "3.IH"(2)[OF i False t' r0 r1 r2]
        by (simp add: fold_record_code_shift)
    qed
  qed
qed

lemma traverse_no_index_error:
  "(\<forall>n \<in> set (nodes_of node). length (children n) \<le> length symbols) \<Longrightarrow>
   traverse max_depth symbols count_dict node path em \<noteq> Inl IndexError"
  and
  "i + length cs \<le> length symbols \<Longrightarrow>
   (\<forall>c \<in> set cs. \<forall>n \<in> set (nodes_of c). length (children n) \<le> length symbols) \<Longrightarrow>
   traverse_children max_depth symbols count_dict i cs path em \<noteq> Inl IndexError"
proof (induction max_depth symbols count_dict node path em
    and max_depth symbols count_dict i cs path em
    rule: traverse_traverse_children.induct)
  case (1 max_depth symbols count_dict c t cs path encoding_map)
  have len: "0 + length cs \<le> length symbols" using "1.prems"(1) by simp
  have sub: "\<forall>ch \<in> set cs. \<forall>n \<in> set (nodes_of ch). length (children n) \<le> length symbols"
    using "1.prems"(1) by auto
  show ?case using "1.IH"[OF _ len sub] by (auto split: option.splits)
next
  case (2 max_depth symbols count_dict i path encoding_map)
  then show ?case by simp
next
  case (3 max_depth symbols count_dict i child rest path encoding_map)
  have i: "i < length symbols" using "3.prems"(1) by simp
  have c1: "\<forall>n \<in> set (nodes_of child). length (children n) \<le> length symbols"
    using "3.prems" by simp
  have r0: "i + 1 + length rest \<le> length symbols" using "3.prems"(1) by simp
  have r1: "\<forall>c \<in> set rest. \<forall>n \<in> set (nodes_of c). length (children n) \<le> length symbols"
    using "3.prems" by simp
  show ?case
  proof (cases "max_depth = 0")
    case True
    then show ?thesis using i by simp
  next
    case False
    show ?thesis
      using i False "3.IH"(1)[OF i False c1] "3.IH"(2)[OF i False _ r0 r1]
      by (auto split: sum.splits)
  qed
qed

lemma generate_encoding_map_result:
  assumes sh: "\<forall>n \<in> set (nodes_of r). length (children n) \<le> length symbols"
    and tg: "set (targets_of r) \<subseteq> dom (map_of count_dict)"
    and di: "distinct (map fst (code_words symbols r))"
  shows "generate_encoding_map_with_count max_depth r symbols count_dict
     = (if depth_of r \<le> max_depth
        then Inr (map (\<lambda>(w, tg). (w, (tg, the (map_of count_dict tg)))) (code_words symbols r))
        else Inl RecursionError)"
proof -
  let ?kvs = "map (\<lambda>(w, tg). (w, (tg, the (map_of count_dict tg)))) (code_words symbols r)"
  have f: "fold (record_code count_dict []) xs em = fold (\<lambda>(k, v). AList.update k v)
      (map (\<lambda>(w, tg). (w, (tg, the (map_of count_dict tg)))) xs) em" for xs em
    by (induction xs arbitrary: em) (auto simp: record_code_def)
  have mf: "map fst ?kvs = map fst (code_words symbols r)"
    by (simp add: case_prod_beta comp_def)
  have "distinct (map fst [] @ map fst ?kvs)" unfolding mf using di by simp
  from fold_update_fresh[OF this] show ?thesis
    unfolding generate_encoding_map_with_count_def traverse_result(1)[OF sh tg] f by simp
qed

lemma encoding_map_of_tree:
  assumes built: "build_huffman_tree count_dict symbols = Some (Inr (Some r))"
    and nb: "2 \<le> length symbols"
  shows "generate_encoding_map_with_count max_depth r symbols count_dict
     = (if depth_of r \<le> max_depth
        then Inr (map (\<lambda>(w, tg). (w, (tg, the (map_of count_dict tg)))) (code_words symbols r))
        else Inl RecursionError)"
    and "incomparable (map fst (code_words symbols r))"
    and "mset (map snd (code_words symbols r)) = mset (map fst count_dict)"
proof -
  have d: "distinct symbols" using built by (auto simp: build_huffman_tree_unfold split: if_splits)
  have sh: "\<forall>n \<in> set (nodes_of r).
      length (children n) \<le> length symbols \<and> (target n \<noteq> None \<longrightarrow> children n = [])"
    using build_huffman_tree_shape[OF built nb] .
  have tg: "mset (targets_of r) = mset (map fst count_dict)"
    using build_huffman_tree_targets[OF built nb] .
  show inc: "incomparable (map fst (code_words symbols r))"
    using code_words_incomparable(1)[OF d sh] .
  show "mset (map snd (code_words symbols r)) = mset (map fst count_dict)"
    using tg by (simp only: code_words_targets)
  have "set (targets_of r) = set (map fst count_dict)" using tg by (rule mset_eq_setD)
  then have sub: "set (targets_of r) \<subseteq> dom (map_of count_dict)"
    by (simp add: dom_map_of_conv_image_fst)
  have sh': "\<forall>n \<in> set (nodes_of r). length (children n) \<le> length symbols" using sh by blast
  have "distinct (map fst (code_words symbols r))" using inc by (simp add: incomparable_def)
  from generate_encoding_map_result[OF sh' sub this]
  show "generate_encoding_map_with_count max_depth r symbols count_dict
     = (if depth_of r \<le> max_depth
        then Inr (map (\<lambda>(w, tg). (w, (tg, the (map_of count_dict tg)))) (code_words symbols r))
        else Inl RecursionError)" .
qed

lemma encoding_map_of_tree_props:
  assumes built: "build_huffman_tree count_dict symbols = Some (Inr (Some r))"
    and nb: "2 \<le> length symbols"
    and gen: "generate_encoding_map_with_count max_depth r symbols count_dict = Inr m"
  shows "prefix_free (map fst m)" and "distinct (map fst m)"
    and "map (\<lambda>(w, tg, cnt). (w, tg)) m = code_words symbols r"
    and "distinct (map fst count_dict) \<Longrightarrow> mset (map snd m) = mset count_dict"
proof -
  let ?f = "\<lambda>tg. (tg, the (map_of count_dict tg))"
  let ?m = "map (\<lambda>(w, tg). (w, ?f tg)) (code_words symbols r)"
  note e = encoding_map_of_tree[OF built nb]
  have m: "m = ?m" using gen e(1)[of max_depth] by (auto split: if_splits)
  have mf: "map fst ?m = map fst (code_words symbols r)"
    by (simp add: case_prod_beta comp_def)
  have ms: "map snd ?m = map ?f (map snd (code_words symbols r))"
    by (simp add: case_prod_beta comp_def)
  show "prefix_free (map fst m)" unfolding m mf using e(2) by (rule incomparable_prefix_free)
  show "distinct (map fst m)" unfolding m mf using e(2) by (simp add: incomparable_def)
  show "map (\<lambda>(w, tg, cnt). (w, tg)) m = code_words symbols r"
    unfolding m by (simp add: case_prod_beta comp_def)
  show "mset (map snd m) = mset count_dict" if d: "distinct (map fst count_dict)"
  proof -
    have "mset (map snd ?m) = image_mset ?f (mset (map snd (code_words symbols r)))"
      unfolding ms by (rule mset_map)
    also have "\<dots> = image_mset ?f (mset (map fst count_dict))" by (simp only: e(3))
    also have "\<dots> = mset (map ?f (map fst count_dict))" by (rule mset_map[symmetric])
    also have "\<dots> = mset count_dict" by (simp only: map_of_table[OF d])
    finally show ?thesis unfolding m .
  qed
qed

lemma encoding_map_returned:
  assumes built: "build_huffman_tree count_dict symbols = Some (Inr (Some r))"
    and nb: "2 \<le> length symbols"
  shows "depth_of r \<le> max_depth \<Longrightarrow>
           \<exists>m. generate_encoding_map_with_count max_depth r symbols count_dict = Inr m"
    and "max_depth < depth_of r \<Longrightarrow>
           generate_encoding_map_with_count max_depth r symbols count_dict = Inl RecursionError"
  using encoding_map_of_tree(1)[OF built nb, of max_depth] by simp_all

lemma build_huffman_tree_returns_tree:
  assumes "distinct symbols" "2 \<le> length symbols" "length symbols \<le> 2 ^ 53 + 1"
    and "count_dict \<noteq> [] \<or> 3 \<le> length symbols" "length count_dict \<le> 2 ^ 53 + 1"
  shows "\<exists>r. build_huffman_tree count_dict symbols = Some (Inr (Some r))"
proof (cases "count_dict = []")
  case True
  then show ?thesis using assms(4) build_huffman_tree_empty_table[OF assms(1)] by simp
next
  case False
  then show ?thesis using assms by (intro build_huffman_tree_returns) simp_all
qed

section \<open>The padding formula\<close>

text \<open>
  C3. The claim: for every \<open>num_elements \<ge> 0\<close> and \<open>num_branches \<ge> 2\<close>,
  \<open>calculate_padding\<close> returns
  \<open>num_branch_points = ceil ((num_elements - 1) / (num_branches - 1))\<close> and
  \<open>num_padding = 1 + (num_branches - 1) * num_branch_points - num_elements\<close>, in
  particular \<open>(2, 0)\<close> for \<open>(5, 3)\<close> and \<open>(2, 1)\<close> for \<open>(4, 3)\<close>. The code
  computes the quotient as a double before taking the ceiling. The two particular values
  are returned, but at \<open>num_elements = 2 ^ 53 + 2\<close> and \<open>num_branches = 2\<close> the
  quotient \<open>(2 ^ 53 + 1) / 1\<close> rounds to the double \<open>2 ^ 53\<close>: the function returns
  \<open>(2 ^ 53, - 1)\<close>, a negative number of padding nodes, where the formula gives
  \<open>(2 ^ 53 + 1, 0)\<close>.
\<close>

theorem calculate_padding_rounded_quotient:
  "calculate_padding (2 ^ 53 + 2) 2 = Inr (2 ^ 53, - 1)
   \<and> \<lceil>(of_int (2 ^ 53 + 2 - 1) / of_int (2 - 1) :: rat)\<rceil> = 2 ^ 53 + 1
   \<and> calculate_padding 5 3 = Inr (2, 0) \<and> calculate_padding 4 3 = Inr (2, 1)"
proof (intro conjI)
  show "calculate_padding (2 ^ 53 + 2) 2 = Inr (2 ^ 53, - 1)" by code_simp
  show "\<lceil>(of_int (2 ^ 53 + 2 - 1) / of_int (2 - 1) :: rat)\<rceil> = 2 ^ 53 + 1" by simp
  show "calculate_padding 5 3 = Inr (2, 0)" by code_simp
  show "calculate_padding 4 3 = Inr (2, 1)" by code_simp
qed

text \<open>
  C8 (amended). \<open>calculate_padding 0 num_branches\<close> is never an error for
  \<open>num_branches \<ge> 2\<close>; it returns \<open>num_branch_points = 0\<close> and \<open>num_padding = 1\<close>
  for every \<open>num_branches \<ge> 3\<close>, and \<open>num_branch_points = - 1\<close> and
  \<open>num_padding = 0\<close> for \<open>num_branches = 2\<close>, where the quotient \<open>- 1 / 1\<close> is
  the integer \<open>- 1\<close>.
\<close>

theorem calculate_padding_no_elements:
  "(num_branches = 2 \<longrightarrow> calculate_padding 0 num_branches = Inr (- 1, 0))
   \<and> (3 \<le> num_branches \<longrightarrow> calculate_padding 0 num_branches = Inr (0, 1))"
proof (intro conjI impI)
  assume "num_branches = 2"
  then show "calculate_padding 0 num_branches = Inr (- 1, 0)"
    using calculate_padding_zero_two by simp
next
  assume "3 \<le> num_branches"
  then show "calculate_padding 0 num_branches = Inr (0, 1)"
    by (rule calculate_padding_zero_more)
qed

theorem calculate_padding_no_elements_witness:
  "calculate_padding 0 2 = Inr (- 1, 0) \<and> calculate_padding 0 3 = Inr (0, 1)"
  using calculate_padding_no_elements[of 2] calculate_padding_no_elements[of 3] by simp

theorem calculate_padding_no_elements_counterexample:
  "calculate_padding 0 2 \<noteq> Inr (0, 1)"
  by code_simp

section \<open>Rejected alphabets\<close>

text \<open>
  C6 (amended). For every frequency table, building a tree with an alphabet of exactly
  one symbol fails: \<open>calculate_padding\<close> divides by \<open>num_branches - 1 = 0\<close> and the
  \<open>ZeroDivisionError\<close> reaches the caller. No check of the alphabet size exists, and
  the empty alphabet is not rejected.
\<close>

theorem build_huffman_tree_one_symbol:
  assumes "length symbols = 1"
  shows "build_huffman_tree count_dict symbols = Some (Inl ZeroDivisionError)"
proof -
  obtain s where s: "symbols = [s]" using assms by (cases symbols) auto
  show ?thesis
    unfolding s build_huffman_tree_def calculate_padding_def
    by (simp add: true_divide_by_zero)
qed

theorem build_huffman_tree_one_symbol_witness:
  "length [''a''] = 1 \<and> build_huffman_tree [(''x'', 7)] [''a''] = Some (Inl ZeroDivisionError)"
proof -
  have h: "length [''a''] = 1" by simp
  show ?thesis using h build_huffman_tree_one_symbol[OF h, of "[(''x'', 7)]"] by simp
qed

text \<open>
  With the empty alphabet and the empty table no error is raised and no tree is
  returned; with one target its leaf is returned. With two targets or more the merge
  loop pops nothing and never ends (\<open>build_huffman_tree_no_symbols_diverges\<close>).
\<close>

theorem build_huffman_tree_no_symbols_counterexample:
  "build_huffman_tree [] [] = Some (Inr None)
   \<and> build_huffman_tree [(''x'', 7)] [] = Some (Inr (Some (Node 7 (Some ''x'') [])))"
  by code_simp

text \<open>
  C7. \<open>build_huffman_tree\<close> raises the duplicate-symbol error (Python's
  \<open>ValueError\<close>) if and only if the symbols list contains a repeated symbol. The
  check is the first statement of the function: when it fires, the result does not depend
  on the frequency table, and no padding is computed, no node created and nothing merged.
\<close>

theorem build_huffman_tree_duplicate_symbols:
  "(build_huffman_tree count_dict symbols = Some (Inl ValueError)) = (\<not> distinct symbols)"
proof (cases "distinct symbols")
  case False
  then show ?thesis by (simp add: build_huffman_tree_unfold)
next
  case True
  have "build_huffman_tree count_dict symbols \<noteq> Some (Inl ValueError)"
  proof (cases "calculate_padding (int (length count_dict)) (int (length symbols))")
    case (Inl e)
    then have "e \<noteq> ValueError" using calculate_padding_errors by blast
    then show ?thesis using True Inl by (simp add: build_huffman_tree_unfold)
  next
    case (Inr p)
    then show ?thesis
      using True merge_nodes_no_error by (cases p) (simp add: build_huffman_tree_unfold)
  qed
  then show ?thesis using True by simp
qed

theorem build_huffman_tree_duplicate_symbols_witness:
  "build_huffman_tree [(''x'', 7)] [''a'', ''a''] = Some (Inl ValueError)
   \<and> build_huffman_tree [(''x'', 7)] [''a'', ''b''] \<noteq> Some (Inl ValueError)"
  using build_huffman_tree_duplicate_symbols[of "[(''x'', 7)]" "[''a'', ''a'']"]
    build_huffman_tree_duplicate_symbols[of "[(''x'', 7)]" "[''a'', ''b'']"]
  by simp

section \<open>The built tree\<close>

text \<open>
  C5. For every non-empty frequency table and every duplicate-free alphabet of size at
  least 2, the root returned by \<open>build_huffman_tree\<close> has as count the sum of all
  counts of the table (the padding leaves have count 0). A root is returned whenever the
  table and the alphabet have at most \<open>2 ^ 53 + 1\<close> entries.
\<close>

theorem build_huffman_tree_root_weight:
  assumes "distinct symbols" "2 \<le> length symbols" "count_dict \<noteq> []"
  shows "(length count_dict \<le> 2 ^ 53 + 1 \<and> length symbols \<le> 2 ^ 53 + 1 \<longrightarrow>
            (\<exists>r. build_huffman_tree count_dict symbols = Some (Inr (Some r))))
       \<and> (\<forall>r. build_huffman_tree count_dict symbols = Some (Inr (Some r)) \<longrightarrow>
            count r = sum_list (map snd count_dict))"
  using assms build_huffman_tree_returns[of symbols count_dict]
    build_huffman_tree_weight[of count_dict symbols]
  by blast

theorem build_huffman_tree_root_weight_witness:
  "build_huffman_tree [(''a'', 5), (''b'', 9), (''c'', 12), (''d'', 13)] [''0'', ''1'', ''2'']
     = Some (Inr (Some (Node 39 None
         [Node 12 (Some ''c'') [], Node 13 (Some ''d'') [],
          Node 14 None [Node 0 None [], Node 5 (Some ''a'') [], Node 9 (Some ''b'') []]])))
   \<and> sum_list (map snd [(''a'', 5), (''b'', 9), (''c'', 12), (''d'', 13 :: int)]) = 39"
proof -
  let ?cd = "[(''a'', 5), (''b'', 9), (''c'', 12), (''d'', 13 :: int)]"
  let ?sy = "[''0'', ''1'', ''2'']"
  have d: "distinct ?sy" and n: "2 \<le> length ?sy" and ne: "?cd \<noteq> []" by simp_all
  have l: "length ?cd \<le> 2 ^ 53 + 1 \<and> length ?sy \<le> 2 ^ 53 + 1" by simp
  from build_huffman_tree_root_weight[OF d n ne] l
  obtain r where r: "build_huffman_tree ?cd ?sy = Some (Inr (Some r))"
    and c: "count r = sum_list (map snd ?cd)"
    by blast
  have b: "build_huffman_tree ?cd ?sy = Some (Inr (Some (Node 39 None
         [Node 12 (Some ''c'') [], Node 13 (Some ''d'') [],
          Node 14 None [Node 0 None [], Node 5 (Some ''a'') [], Node 9 (Some ''b'') []]])))"
    by code_simp
  show ?thesis using b r c by simp
qed

text \<open>
  C2. For every frequency table and every duplicate-free alphabet of size
  \<open>num_branches \<ge> 2\<close>, every node with at least one child in the tree returned by
  \<open>build_huffman_tree\<close> has exactly \<open>num_branches\<close> children: every merge step
  removes exactly \<open>num_branches\<close> nodes. The table and the alphabet are Python
  containers held in memory; that they have at most \<open>2 ^ 53 + 1\<close> entries is a
  hypothesis of the model, under which the padding formula is computed exactly.
\<close>

theorem build_huffman_tree_full_branching:
  assumes "distinct symbols" "2 \<le> length symbols" "length symbols \<le> 2 ^ 53 + 1"
    and "length count_dict \<le> 2 ^ 53 + 1"
  shows "(count_dict \<noteq> [] \<longrightarrow>
            (\<exists>r. build_huffman_tree count_dict symbols = Some (Inr (Some r))))
       \<and> (\<forall>r. build_huffman_tree count_dict symbols = Some (Inr (Some r)) \<longrightarrow>
            (\<forall>n \<in> set (nodes_of r).
               children n \<noteq> [] \<longrightarrow> length (children n) = length symbols))"
  using assms build_huffman_tree_returns[of symbols count_dict]
    build_huffman_tree_arity[of count_dict symbols]
  by blast

theorem build_huffman_tree_full_branching_witness:
  "build_huffman_tree [(''a'', 5), (''b'', 9), (''c'', 12), (''d'', 13)] [''0'', ''1'', ''2'']
     = Some (Inr (Some (Node 39 None
         [Node 12 (Some ''c'') [], Node 13 (Some ''d'') [],
          Node 14 None [Node 0 None [], Node 5 (Some ''a'') [], Node 9 (Some ''b'') []]])))
   \<and> length (children (Node 14 None
         [Node 0 None [], Node 5 (Some ''a'') [], Node 9 (Some ''b'') []])) = 3"
proof -
  let ?cd = "[(''a'', 5), (''b'', 9), (''c'', 12), (''d'', 13 :: int)]"
  let ?sy = "[''0'', ''1'', ''2'']"
  let ?n = "Node 14 None [Node 0 None [], Node 5 (Some ''a'') [], Node 9 (Some ''b'') []]"
  let ?r = "Node 39 None [Node 12 (Some ''c'') [], Node 13 (Some ''d'') [], ?n]"
  have h: "distinct ?sy" "2 \<le> length ?sy" "length ?sy \<le> 2 ^ 53 + 1" "length ?cd \<le> 2 ^ 53 + 1"
    by simp_all
  have b: "build_huffman_tree ?cd ?sy = Some (Inr (Some ?r))" by code_simp
  have "?n \<in> set (nodes_of ?r)" "children ?n \<noteq> []" by simp_all
  with build_huffman_tree_full_branching[OF h] b
  have "length (children ?n) = length ?sy" by blast
  then show ?thesis using b by simp
qed

text \<open>
  The hypothesis on the sizes is needed in the model only: for a list of
  \<open>2 ^ 53 + 2\<close> distinct targets, more than any memory holds, and three symbols the
  quotient \<open>(2 ^ 53 + 1) / 2\<close> rounds to the double \<open>2 ^ 52\<close>, the padding computed
  is \<open>- 1\<close>, and the last merge step finds two nodes only.
\<close>

lemma big_table_root_arity:
  "root_arity (build_huffman_tree big_table [''a'', ''b'', ''c'']) = Some 2
   \<and> length big_table = 2 ^ 53 + 2 \<and> distinct (map fst big_table)"
proof -
  have il: "int (length big_table) = 2 ^ 53 + 2" by (simp only: length_big_table) simp
  have cp: "calculate_padding (int (length big_table)) 3 = Inr (2 ^ 52, - 1)"
    by (simp only: il calculate_padding_big)
  have ne: "big_table \<noteq> []"
  proof
    assume "big_table = []"
    then have "length big_table = 0" by simp
    then show False using length_big_table by simp
  qed
  have cp': "calculate_padding (int (length big_table)) (int (length [''a'', ''b'', ''c'']))
      = Inr (2 ^ 52, - 1)"
    using cp by simp
  obtain r where r: "build_huffman_tree big_table [''a'', ''b'', ''c''] = Some (Inr (Some r))"
    using build_huffman_tree_returns_if[OF _ _ ne cp'] by auto
  have "even (length big_table + nat (- 1))" "length big_table + nat (- 1) \<noteq> 0"
    by (simp_all only: length_big_table) simp_all
  from merge_three_even[OF r cp this]
  have "length (children r) = 2" .
  then show ?thesis using r length_big_table distinct_big_table by (simp add: root_arity_def)
qed

text \<open>
  C10. In every tree returned by \<open>build_huffman_tree\<close> for a duplicate-free
  symbols list of size at least 2, every node has at most \<open>length symbols\<close> children
  and every node that carries a target has none. Hence in
  \<open>generate_encoding_map_with_count\<close>, run with the same symbols list, the lookup
  \<open>symbols[i]\<close> is in range for every child index: the traversal never raises
  \<open>IndexError\<close>, whatever table is passed and whatever the recursion limit, and it
  returns a map whenever the tree is not deeper than the recursion limit allows.
\<close>

theorem tree_children_in_range:
  assumes "distinct symbols" "2 \<le> length symbols"
    and "build_huffman_tree count_dict symbols = Some (Inr (Some r))"
  shows "(\<forall>n \<in> set (nodes_of r).
            length (children n) \<le> length symbols \<and> (target n \<noteq> None \<longrightarrow> children n = []))
       \<and> (\<forall>max_depth other_dict.
            generate_encoding_map_with_count max_depth r symbols other_dict \<noteq> Inl IndexError)
       \<and> (\<forall>max_depth. depth_of r \<le> max_depth \<longrightarrow>
            (\<exists>m. generate_encoding_map_with_count max_depth r symbols count_dict = Inr m))"
proof -
  note sh = build_huffman_tree_shape[OF assms(3,2)]
  then have "\<forall>n \<in> set (nodes_of r). length (children n) \<le> length symbols" by blast
  then have "\<forall>max_depth other_dict.
      generate_encoding_map_with_count max_depth r symbols other_dict \<noteq> Inl IndexError"
    unfolding generate_encoding_map_with_count_def using traverse_no_index_error(1) by blast
  then show ?thesis using sh encoding_map_returned(1)[OF assms(3,2)] by blast
qed

theorem tree_children_in_range_witness:
  "build_huffman_tree [(''a'', 5), (''b'', 9), (''c'', 12), (''d'', 13)] [''0'', ''1'', ''2'']
     = Some (Inr (Some (Node 39 None
         [Node 12 (Some ''c'') [], Node 13 (Some ''d'') [],
          Node 14 None [Node 0 None [], Node 5 (Some ''a'') [], Node 9 (Some ''b'') []]])))
   \<and> depth_of (Node 39 None
         [Node 12 (Some ''c'') [], Node 13 (Some ''d'') [],
          Node 14 None [Node 0 None [], Node 5 (Some ''a'') [], Node 9 (Some ''b'') []]]) = 2
   \<and> generate_encoding_map_with_count 2
        (Node 39 None
         [Node 12 (Some ''c'') [], Node 13 (Some ''d'') [],
          Node 14 None [Node 0 None [], Node 5 (Some ''a'') [], Node 9 (Some ''b'') []]])
        [''0'', ''1'', ''2''] [(''a'', 5), (''b'', 9), (''c'', 12), (''d'', 13)]
     = Inr [([''0''], ''c'', 12), ([''1''], ''d'', 13),
            ([''2'', ''1''], ''a'', 5), ([''2'', ''2''], ''b'', 9)]"
proof -
  let ?cd = "[(''a'', 5), (''b'', 9), (''c'', 12), (''d'', 13 :: int)]"
  let ?sy = "[''0'', ''1'', ''2'']"
  let ?r = "Node 39 None
         [Node 12 (Some ''c'') [], Node 13 (Some ''d'') [],
          Node 14 None [Node 0 None [], Node 5 (Some ''a'') [], Node 9 (Some ''b'') []]]"
  have h: "distinct ?sy" "2 \<le> length ?sy" by simp_all
  have b: "build_huffman_tree ?cd ?sy = Some (Inr (Some ?r))" by code_simp
  have d: "depth_of ?r = 2" by simp
  have g: "generate_encoding_map_with_count 2 ?r ?sy ?cd
     = Inr [([''0''], ''c'', 12), ([''1''], ''d'', 13),
            ([''2'', ''1''], ''a'', 5), ([''2'', ''2''], ''b'', 9)]"
    by code_simp
  from tree_children_in_range[OF h b] d
  have "\<exists>m. generate_encoding_map_with_count 2 ?r ?sy ?cd = Inr m" by simp
  then show ?thesis using b d g by simp
qed

section \<open>The encoding map\<close>

text \<open>
  C1. For every frequency table with distinct targets and every duplicate-free alphabet
  of size at least 2, in the encoding map that \<open>generate_encoding_map_with_count\<close>
  produces from the tree built by \<open>build_huffman_tree\<close>, no code word is a prefix of
  another code word: this holds of every map that the traversal returns, under every
  recursion limit. A tree is built whenever the table is not empty and the table and the
  alphabet have at most \<open>2 ^ 53 + 1\<close> entries, and a map is returned whenever the tree
  is not deeper than the recursion limit allows.
\<close>

theorem encoding_map_prefix_free:
  assumes "distinct (map fst count_dict)" "distinct symbols" "2 \<le> length symbols"
  shows "(count_dict \<noteq> [] \<and> length count_dict \<le> 2 ^ 53 + 1 \<and> length symbols \<le> 2 ^ 53 + 1 \<longrightarrow>
            (\<exists>r. build_huffman_tree count_dict symbols = Some (Inr (Some r))))
       \<and> (\<forall>r. build_huffman_tree count_dict symbols = Some (Inr (Some r)) \<longrightarrow>
            (\<forall>max_depth m.
               generate_encoding_map_with_count max_depth r symbols count_dict = Inr m \<longrightarrow>
               prefix_free (map fst m))
            \<and> (\<forall>max_depth. depth_of r \<le> max_depth \<longrightarrow>
                 (\<exists>m. generate_encoding_map_with_count max_depth r symbols count_dict = Inr m)))"
proof (intro conjI allI impI)
  assume "count_dict \<noteq> [] \<and> length count_dict \<le> 2 ^ 53 + 1 \<and> length symbols \<le> 2 ^ 53 + 1"
  then show "\<exists>r. build_huffman_tree count_dict symbols = Some (Inr (Some r))"
    using assms by (intro build_huffman_tree_returns) simp_all
next
  fix r max_depth m
  assume b: "build_huffman_tree count_dict symbols = Some (Inr (Some r))"
    and g: "generate_encoding_map_with_count max_depth r symbols count_dict = Inr m"
  show "prefix_free (map fst m)"
    using encoding_map_of_tree_props(1)[OF b assms(3) g] .
next
  fix r max_depth
  assume "build_huffman_tree count_dict symbols = Some (Inr (Some r))"
    and "depth_of r \<le> max_depth"
  then show "\<exists>m. generate_encoding_map_with_count max_depth r symbols count_dict = Inr m"
    using assms(3) encoding_map_returned(1) by blast
qed

theorem encoding_map_prefix_free_witness:
  "build_huffman_tree [(''a'', 5), (''b'', 9), (''c'', 12), (''d'', 13)] [''0'', ''1'', ''2'']
     = Some (Inr (Some (Node 39 None
         [Node 12 (Some ''c'') [], Node 13 (Some ''d'') [],
          Node 14 None [Node 0 None [], Node 5 (Some ''a'') [], Node 9 (Some ''b'') []]])))
   \<and> generate_encoding_map_with_count 1000
        (Node 39 None
         [Node 12 (Some ''c'') [], Node 13 (Some ''d'') [],
          Node 14 None [Node 0 None [], Node 5 (Some ''a'') [], Node 9 (Some ''b'') []]])
        [''0'', ''1'', ''2''] [(''a'', 5), (''b'', 9), (''c'', 12), (''d'', 13)]
     = Inr [([''0''], ''c'', 12), ([''1''], ''d'', 13),
            ([''2'', ''1''], ''a'', 5), ([''2'', ''2''], ''b'', 9)]
   \<and> prefix_free [[''0''], [''1''], [''2'', ''1''], [''2'', ''2'']]"
proof -
  let ?cd = "[(''a'', 5), (''b'', 9), (''c'', 12), (''d'', 13 :: int)]"
  let ?sy = "[''0'', ''1'', ''2'']"
  let ?r = "Node 39 None
         [Node 12 (Some ''c'') [], Node 13 (Some ''d'') [],
          Node 14 None [Node 0 None [], Node 5 (Some ''a'') [], Node 9 (Some ''b'') []]]"
  let ?m = "[([''0''], ''c'', 12), ([''1''], ''d'', 13),
            ([''2'', ''1''], ''a'', 5), ([''2'', ''2''], ''b'', 9 :: int)]"
  have h: "distinct (map fst ?cd)" "distinct ?sy" "2 \<le> length ?sy" by simp_all
  have b: "build_huffman_tree ?cd ?sy = Some (Inr (Some ?r))" by code_simp
  have g: "generate_encoding_map_with_count 1000 ?r ?sy ?cd = Inr ?m" by code_simp
  from encoding_map_prefix_free[OF h] b g
  have "prefix_free (map fst ?m)" by blast
  then show ?thesis using b g by simp
qed

text \<open>
  C4 (amended). For every frequency table with distinct targets and every
  duplicate-free alphabet of size at least 2 for which \<open>build_huffman_tree\<close> returns a
  tree (it does for every table that is not empty, and for the empty one with three
  symbols or more), \<open>generate_encoding_map_with_count\<close> returns a map whenever the tree
  is not deeper than the recursion limit allows, and raises \<open>RecursionError\<close>
  otherwise. Every map it returns has exactly one entry for each target of the table; the
  key of the entry is the code word of the leaf that carries the target, the symbols on
  the path from the root, and its value is the pair of the target and its original count.
\<close>

theorem encoding_map_entries:
  assumes "distinct (map fst count_dict)" "distinct symbols" "2 \<le> length symbols"
  shows "((count_dict \<noteq> [] \<or> 3 \<le> length symbols)
            \<and> length count_dict \<le> 2 ^ 53 + 1 \<and> length symbols \<le> 2 ^ 53 + 1 \<longrightarrow>
            (\<exists>r. build_huffman_tree count_dict symbols = Some (Inr (Some r))))
       \<and> (\<forall>r. build_huffman_tree count_dict symbols = Some (Inr (Some r)) \<longrightarrow>
            (\<forall>max_depth. depth_of r \<le> max_depth \<longrightarrow>
               (\<exists>m. generate_encoding_map_with_count max_depth r symbols count_dict = Inr m))
            \<and> (\<forall>max_depth. max_depth < depth_of r \<longrightarrow>
                 generate_encoding_map_with_count max_depth r symbols count_dict
                   = Inl RecursionError)
            \<and> (\<forall>max_depth m.
                 generate_encoding_map_with_count max_depth r symbols count_dict = Inr m \<longrightarrow>
                 distinct (map fst m) \<and> mset (map snd m) = mset count_dict
                 \<and> map (\<lambda>(w, tg, cnt). (w, tg)) m = code_words symbols r))"
proof (intro conjI allI impI)
  assume "(count_dict \<noteq> [] \<or> 3 \<le> length symbols)
      \<and> length count_dict \<le> 2 ^ 53 + 1 \<and> length symbols \<le> 2 ^ 53 + 1"
  then show "\<exists>r. build_huffman_tree count_dict symbols = Some (Inr (Some r))"
    using assms by (intro build_huffman_tree_returns_tree) simp_all
next
  fix r max_depth
  assume "build_huffman_tree count_dict symbols = Some (Inr (Some r))"
    and "depth_of r \<le> max_depth"
  then show "\<exists>m. generate_encoding_map_with_count max_depth r symbols count_dict = Inr m"
    using assms(3) encoding_map_returned(1) by blast
next
  fix r max_depth
  assume "build_huffman_tree count_dict symbols = Some (Inr (Some r))"
    and "max_depth < depth_of r"
  then show "generate_encoding_map_with_count max_depth r symbols count_dict
      = Inl RecursionError"
    using assms(3) encoding_map_returned(2) by blast
next
  fix r max_depth m
  assume b: "build_huffman_tree count_dict symbols = Some (Inr (Some r))"
    and g: "generate_encoding_map_with_count max_depth r symbols count_dict = Inr m"
  show "distinct (map fst m)"
    using encoding_map_of_tree_props(2)[OF b assms(3) g] .
  show "mset (map snd m) = mset count_dict"
    using encoding_map_of_tree_props(4)[OF b assms(3) g assms(1)] .
  show "map (\<lambda>(w, tg, cnt). (w, tg)) m = code_words symbols r"
    using encoding_map_of_tree_props(3)[OF b assms(3) g] .
qed

theorem encoding_map_entries_witness:
  "build_huffman_tree [(''a'', 5), (''b'', 9), (''c'', 12), (''d'', 13)] [''0'', ''1'', ''2'']
     = Some (Inr (Some (Node 39 None
         [Node 12 (Some ''c'') [], Node 13 (Some ''d'') [],
          Node 14 None [Node 0 None [], Node 5 (Some ''a'') [], Node 9 (Some ''b'') []]])))
   \<and> generate_encoding_map_with_count 1000
        (Node 39 None
         [Node 12 (Some ''c'') [], Node 13 (Some ''d'') [],
          Node 14 None [Node 0 None [], Node 5 (Some ''a'') [], Node 9 (Some ''b'') []]])
        [''0'', ''1'', ''2''] [(''a'', 5), (''b'', 9), (''c'', 12), (''d'', 13)]
     = Inr [([''0''], ''c'', 12), ([''1''], ''d'', 13),
            ([''2'', ''1''], ''a'', 5), ([''2'', ''2''], ''b'', 9)]
   \<and> code_words [''0'', ''1'', ''2'']
        (Node 39 None
         [Node 12 (Some ''c'') [], Node 13 (Some ''d'') [],
          Node 14 None [Node 0 None [], Node 5 (Some ''a'') [], Node 9 (Some ''b'') []]])
     = [([''0''], ''c''), ([''1''], ''d''), ([''2'', ''1''], ''a''), ([''2'', ''2''], ''b'')]
   \<and> mset [(''c'', 12), (''d'', 13), (''a'', 5), (''b'', 9 :: int)]
     = mset [(''a'', 5), (''b'', 9), (''c'', 12), (''d'', 13)]"
proof -
  let ?cd = "[(''a'', 5), (''b'', 9), (''c'', 12), (''d'', 13 :: int)]"
  let ?sy = "[''0'', ''1'', ''2'']"
  let ?r = "Node 39 None
         [Node 12 (Some ''c'') [], Node 13 (Some ''d'') [],
          Node 14 None [Node 0 None [], Node 5 (Some ''a'') [], Node 9 (Some ''b'') []]]"
  let ?m = "[([''0''], ''c'', 12), ([''1''], ''d'', 13),
            ([''2'', ''1''], ''a'', 5), ([''2'', ''2''], ''b'', 9 :: int)]"
  have h: "distinct (map fst ?cd)" "distinct ?sy" "2 \<le> length ?sy" by simp_all
  have b: "build_huffman_tree ?cd ?sy = Some (Inr (Some ?r))" by code_simp
  have g: "generate_encoding_map_with_count 1000 ?r ?sy ?cd = Inr ?m" by code_simp
  from encoding_map_entries[OF h] b g
  have "mset (map snd ?m) = mset ?cd" "map (\<lambda>(w, tg, cnt). (w, tg)) ?m = code_words ?sy ?r"
    by blast+
  then show ?thesis using b g by simp
qed

text \<open>
  For the empty table and two symbols no tree is returned, so there is no map at all.
\<close>

theorem encoding_map_entries_counterexample:
  "build_huffman_tree [] [''a'', ''b''] = Some (Inr None)"
  by code_simp

text \<open>
  A tree two levels deep: the traversal returns its map when two nested calls are
  allowed and raises \<open>RecursionError\<close> when only one is. Under CPython's default limit
  the same happens from about a thousand levels, which a table of 1100 targets with the
  counts \<open>2 ^ i\<close> and two symbols reaches.
\<close>

lemma traverse_recursion_limit_example:
  "build_huffman_tree [(''a'', 1), (''b'', 2), (''c'', 4)] [''0'', ''1'']
     = Some (Inr (Some (Node 7 None
         [Node 3 None [Node 1 (Some ''a'') [], Node 2 (Some ''b'') []],
          Node 4 (Some ''c'') []])))
   \<and> generate_encoding_map_with_count 2
        (Node 7 None
         [Node 3 None [Node 1 (Some ''a'') [], Node 2 (Some ''b'') []],
          Node 4 (Some ''c'') []])
        [''0'', ''1''] [(''a'', 1), (''b'', 2), (''c'', 4)]
     = Inr [([''0'', ''0''], ''a'', 1), ([''0'', ''1''], ''b'', 2), ([''1''], ''c'', 4)]
   \<and> generate_encoding_map_with_count 1
        (Node 7 None
         [Node 3 None [Node 1 (Some ''a'') [], Node 2 (Some ''b'') []],
          Node 4 (Some ''c'') []])
        [''0'', ''1''] [(''a'', 1), (''b'', 2), (''c'', 4)]
     = Inl RecursionError"
  by code_simp

text \<open>
  C9 (amended). For every duplicate-free alphabet of size at least 3,
  \<open>build_huffman_tree\<close> applied to the empty frequency table returns a tree whose root
  is a single padding leaf without target, and \<open>generate_encoding_map_with_count\<close> on
  that tree returns the empty map, under every recursion limit. For an alphabet of size
  2 no padding leaf is added and no tree is returned.
\<close>

theorem build_huffman_tree_no_targets:
  assumes "distinct symbols"
  shows "(3 \<le> length symbols \<longrightarrow>
            build_huffman_tree [] symbols = Some (Inr (Some (Node 0 None [])))
            \<and> target (Node 0 None []) = None
            \<and> generate_encoding_map_with_count max_depth (Node 0 None []) symbols [] = Inr [])
       \<and> (length symbols = 2 \<longrightarrow> build_huffman_tree [] symbols = Some (Inr None))"
  using build_huffman_tree_empty_table[OF assms]
  by (simp add: generate_encoding_map_with_count_def)

theorem build_huffman_tree_no_targets_witness:
  "build_huffman_tree [] [''0'', ''1'', ''2''] = Some (Inr (Some (Node 0 None [])))
   \<and> generate_encoding_map_with_count 0 (Node 0 None []) [''0'', ''1'', ''2''] [] = Inr []"
proof -
  have d: "distinct [''0'', ''1'', ''2'']" by simp
  show ?thesis using build_huffman_tree_no_targets[OF d, of 0] by simp
qed

theorem build_huffman_tree_no_targets_counterexample:
  "build_huffman_tree [] [''0'', ''1''] = Some (Inr None)"
  by code_simp

end
